theory Spec2Isabelle
  imports Main
begin

section \<open>Text and character classes\<close>

text \<open>
  The document text and every selector are JavaScript strings. They are modelled as
  \<open>string\<close>, a list of code units; only code units below 256 are represented, so the
  classes below are the JavaScript classes cut down to that range.
\<close>

definition is_space :: "char \<Rightarrow> bool" where
  \<comment> \<open>the class \<open>\s\<close>; \<open>trim\<close>, \<open>trimLeft\<close> and \<open>trimRight\<close> strip the same set\<close>
  "is_space c =
     (c = CHR 0x09 \<or> c = CHR 0x0A \<or> c = CHR 0x0B \<or> c = CHR 0x0C \<or> c = CHR 0x0D
      \<or> c = CHR 0x20 \<or> c = CHR 0xA0)"

definition is_line_terminator :: "char \<Rightarrow> bool" where
  \<comment> \<open>what \<open>.\<close> does not match when the \<open>s\<close> flag is absent\<close>
  "is_line_terminator c = (c = CHR 0x0A \<or> c = CHR 0x0D)"

definition is_word :: "char \<Rightarrow> bool" where
  \<comment> \<open>the class \<open>\w\<close>, that is \<open>[A-Za-z0-9_]\<close>\<close>
  "is_word c =
     (let n = (of_char c :: nat)
      in (65 \<le> n \<and> n \<le> 90) \<or> (97 \<le> n \<and> n \<le> 122) \<or> (48 \<le> n \<and> n \<le> 57) \<or> n = 95)"

definition is_word_dash :: "char \<Rightarrow> bool" where
  \<comment> \<open>the class \<open>[\w-]\<close>\<close>
  "is_word_dash c = (is_word c \<or> c = CHR ''-'')"

definition is_combinator :: "char \<Rightarrow> bool" where
  \<comment> \<open>the class \<open>[\s+>~]\<close>\<close>
  "is_combinator c = (is_space c \<or> c = CHR ''+'' \<or> c = CHR ''>'' \<or> c = CHR ''~'')"

definition is_terminator :: "char \<Rightarrow> bool" where
  \<comment> \<open>the class \<open>[;{}]\<close>\<close>
  "is_terminator c = (c = CHR '';'' \<or> c = CHR ''{'' \<or> c = CHR ''}'')"

definition trimLeft :: "string \<Rightarrow> string" where
  "trimLeft s = dropWhile is_space s"

definition trimRight :: "string \<Rightarrow> string" where
  "trimRight s = rev (dropWhile is_space (rev s))"

definition trim :: "string \<Rightarrow> string" where
  "trim s = trimRight (trimLeft s)"

function collapse_spaces :: "string \<Rightarrow> string" where
  \<comment> \<open>\<open>replace(/\s+/g, ' ')\<close>: every maximal run of white space becomes one space\<close>
  "collapse_spaces [] = []"
| "collapse_spaces (c # cs) =
     (if is_space c then CHR '' '' # collapse_spaces (dropWhile is_space cs)
      else c # collapse_spaces cs)"
  by pat_completeness auto
termination
  by (relation "measure length") (auto simp: less_Suc_eq_le length_dropWhile_le)

section \<open>The data model\<close>

record LeafName =
  raw :: string
  full :: string
  isSelector :: bool

text \<open>
  A \<open>LeafRange\<close> is an object that \<open>ranges\<close>, \<open>current\<close>, \<open>stack\<close> and the \<open>parent\<close>
  fields of other objects all refer to, and whose \<open>end\<close> is assigned after its creation.
  The array \<open>ranges\<close> receives every object at its creation, so it serves as the object
  store: a reference is the index of the object in \<open>ranges\<close>.
\<close>

record LeafRange =
  names :: "LeafName list"
  start :: int
  end' :: int
  parent :: "nat option"

record FullMainName =
  full' :: string
  main :: string

record 'p NamedRange =
  names' :: "FullMainName list"
  range' :: "'p \<times> 'p"

text \<open>
  The fields of a \<open>CSSRangeParser\<close> object. \<open>stack\<close> has its top at the head
  (\<open>push\<close> is \<open>#\<close>, \<open>pop\<close> takes the head and gives \<open>undefined\<close>, here \<open>None\<close>,
  on the empty stack).
\<close>

record CSSRangeParser =
  supportedLanguages :: "string list"
  supportsNesting :: bool
  document :: string
  languageId :: string
  stack :: "nat list"
  current :: "nat option"
  ignoreDeep :: nat

section \<open>The block regular expression of \<open>parse\<close>\<close>

text \<open>
  \<open>/\s*(?:\/\/.*|\/\*[\s\S]*?\*\/|((?:\(.*?\)|".*?"|'.*?'|[\s\S])*?)([;{}]))/g\<close>.
  Each piece of the expression is a function on the text that is still to be read; a piece
  followed by the rest of the expression takes the rest as a continuation \<open>k\<close> and, as a
  backtracking matcher does, moves on to its next choice when \<open>k\<close> fails.
\<close>

fun lazy_dots_then :: "char \<Rightarrow> string \<Rightarrow> (string \<Rightarrow> 'a option) \<Rightarrow> 'a option" where
  \<comment> \<open>\<open>.*?q\<close> followed by \<open>k\<close>, where \<open>.\<close> stops at a line terminator\<close>
  "lazy_dots_then q [] k = None"
| "lazy_dots_then q (c # cs) k =
     (case (if c = q then k cs else None) of
        Some r \<Rightarrow> Some r
      | None \<Rightarrow> if is_line_terminator c then None else lazy_dots_then q cs k)"

lemma lazy_dots_then_ext:
  "(\<And>r. length r < length cs \<Longrightarrow> k r = k' r)
   \<Longrightarrow> lazy_dots_then q cs k = lazy_dots_then q cs k'"
proof (induction cs)
  case Nil
  show ?case by simp
next
  case (Cons c cs)
  have "k cs = k' cs"
    by (rule Cons.prems) simp
  moreover have "lazy_dots_then q cs k = lazy_dots_then q cs k'"
    by (rule Cons.IH, rule Cons.prems) simp
  ultimately show ?case by (simp split: option.split)
qed

lemma lazy_dots_then_cong [fundef_cong]:
  "q = q' \<Longrightarrow> cs = cs' \<Longrightarrow> (\<And>r. length r < length cs' \<Longrightarrow> k r = k' r)
   \<Longrightarrow> lazy_dots_then q cs k = lazy_dots_then q' cs' k'"
  using lazy_dots_then_ext [of cs' k k' q'] by simp

definition fragment_item :: "(string \<Rightarrow> string option) \<Rightarrow> string \<Rightarrow> string option" where
  \<comment> \<open>one round of \<open>(?:\(.*?\)|".*?"|'.*?'|[\s\S])\<close> followed by \<open>k\<close>\<close>
  "fragment_item k s =
     (case s of
        [] \<Rightarrow> None
      | c # cs \<Rightarrow>
          (case (if c = CHR ''('' then lazy_dots_then (CHR '')'') cs k else None) of
             Some r \<Rightarrow> Some r
           | None \<Rightarrow>
              (case (if c = CHR 0x22 then lazy_dots_then (CHR 0x22) cs k else None) of
                 Some r \<Rightarrow> Some r
               | None \<Rightarrow>
                  (case (if c = CHR 0x27 then lazy_dots_then (CHR 0x27) cs k else None) of
                     Some r \<Rightarrow> Some r
                   | None \<Rightarrow> k cs))))"

lemma fragment_item_ext:
  assumes "\<And>r. length r < length s \<Longrightarrow> k r = k' r"
  shows "fragment_item k s = fragment_item k' s"
proof (cases s)
  case Nil
  then show ?thesis by (simp add: fragment_item_def)
next
  case (Cons c cs)
  have l: "lazy_dots_then q cs k = lazy_dots_then q cs k'" for q
    by (rule lazy_dots_then_ext, rule assms) (simp add: Cons)
  have "k cs = k' cs"
    by (rule assms) (simp add: Cons)
  with l Cons show ?thesis
    by (simp add: fragment_item_def split: option.split)
qed

lemma fragment_item_cong [fundef_cong]:
  "s = s' \<Longrightarrow> (\<And>r. length r < length s' \<Longrightarrow> k r = k' r)
   \<Longrightarrow> fragment_item k s = fragment_item k' s'"
  using fragment_item_ext [of s' k k'] by simp

function fragment :: "string \<Rightarrow> string option" where
  \<comment> \<open>\<open>(?:...)*?\<close> followed by \<open>[;{}]\<close>: the text from the terminator on\<close>
  "fragment s =
     (if s \<noteq> [] \<and> is_terminator (hd s) then Some s else fragment_item fragment s)"
  by pat_completeness auto
termination
  by (relation "measure length") auto

declare fragment.simps [simp del]

fun until_comment_end :: "string \<Rightarrow> string option" where
  \<comment> \<open>\<open>[\s\S]*?\*\/\<close>: the text after the first \<open>*/\<close>\<close>
  "until_comment_end [] = None"
| "until_comment_end (c # cs) =
     (if c = CHR ''*'' \<and> take 1 cs = ''/'' then Some (drop 1 cs) else until_comment_end cs)"

definition alternatives :: "string \<Rightarrow> (string option \<times> string option \<times> string) option" where
  \<comment> \<open>the three alternatives after \<open>\s*\<close>: group 1, group 2 and the text after the match\<close>
  "alternatives s =
     (if take 2 s = ''//'' then
        Some (None, None, dropWhile (\<lambda>c. \<not> is_line_terminator c) (drop 2 s))
      else
        (case (if take 2 s = ''/*'' then until_comment_end (drop 2 s) else None) of
           Some r \<Rightarrow> Some (None, None, r)
         | None \<Rightarrow>
            (case fragment s of
               Some r \<Rightarrow> Some (Some (take (length s - length r) s), Some (take 1 r), drop 1 r)
             | None \<Rightarrow> None)))"

fun spaces_then :: "string \<Rightarrow> (string \<Rightarrow> 'a option) \<Rightarrow> 'a option" where
  \<comment> \<open>the greedy \<open>\s*\<close> followed by \<open>k\<close>\<close>
  "spaces_then [] k = k []"
| "spaces_then (c # cs) k =
     (if is_space c then
        (case spaces_then cs k of Some r \<Rightarrow> Some r | None \<Rightarrow> k (c # cs))
      else k (c # cs))"

text \<open>
  A match: \<open>match[1]\<close> and \<open>match[2]\<close>, \<open>None\<close> for a group that took no part in the
  match (\<open>undefined\<close>), and the \<open>lastIndex\<close> that the expression is left with.
\<close>

record RegExpExecArray =
  group1 :: "string option"
  group2 :: "string option"
  lastIndex :: nat

function re_exec :: "string \<Rightarrow> nat \<Rightarrow> RegExpExecArray option" where
  \<comment> \<open>\<open>re.exec(text)\<close> with \<open>re.lastIndex = i\<close>: the first start from \<open>i\<close> on that matches\<close>
  "re_exec text i =
     (if length text < i then None
      else
        (case spaces_then (drop i text) alternatives of
           Some (g1, g2, r) \<Rightarrow>
             Some \<lparr>group1 = g1, group2 = g2, lastIndex = length text - length r\<rparr>
         | None \<Rightarrow> re_exec text (Suc i)))"
  by pat_completeness auto
termination
  by (relation "measure (\<lambda>(text, i). Suc (length text) - i)") auto

declare re_exec.simps [simp del]

subsection \<open>Where a match lies in the text\<close>

lemma lazy_dots_then_suffix:
  "lazy_dots_then q cs k = Some y \<Longrightarrow> \<exists>pre r. cs = pre @ r \<and> pre \<noteq> [] \<and> k r = Some y"
proof (induction cs)
  case Nil
  then show ?case by simp
next
  case (Cons c cs)
  show ?case
  proof (cases "c = q \<and> k cs = Some y")
    case True
    then have "c # cs = [c] @ cs \<and> [c] \<noteq> [] \<and> k cs = Some y"
      by simp
    then show ?thesis by blast
  next
    case False
    with Cons.prems have "lazy_dots_then q cs k = Some y"
      by (auto split: option.splits if_splits)
    with Cons.IH obtain pre r where "cs = pre @ r" "k r = Some y"
      by blast
    then have "c # cs = (c # pre) @ r \<and> c # pre \<noteq> [] \<and> k r = Some y"
      by simp
    then show ?thesis by blast
  qed
qed

lemma fragment_item_cases:
  assumes "fragment_item k (c # cs) = Some y"
  shows "(\<exists>q. lazy_dots_then q cs k = Some y) \<or> k cs = Some y"
proof (cases "k cs = Some y")
  case True
  then show ?thesis by simp
next
  case False
  show ?thesis
  proof (rule ccontr)
    assume "\<not> ?thesis"
    then have n: "\<And>q. lazy_dots_then q cs k \<noteq> Some y" by blast
    from assms False n [of "CHR '')''"] n [of "CHR 0x22"] n [of "CHR 0x27"] show False
      unfolding fragment_item_def list.case
      by (simp split: option.splits if_splits)
  qed
qed

lemma fragment_item_suffix:
  assumes "fragment_item k s = Some y"
  shows "\<exists>pre r. s = pre @ r \<and> pre \<noteq> [] \<and> k r = Some y"
proof (cases s)
  case Nil
  with assms show ?thesis by (simp add: fragment_item_def)
next
  case (Cons c cs)
  from assms have "fragment_item k (c # cs) = Some y"
    unfolding Cons .
  then have "(\<exists>q. lazy_dots_then q cs k = Some y) \<or> k cs = Some y"
    by (rule fragment_item_cases)
  then show ?thesis
  proof
    assume "\<exists>q. lazy_dots_then q cs k = Some y"
    then obtain q where "lazy_dots_then q cs k = Some y" ..
    then have "\<exists>pre r. cs = pre @ r \<and> pre \<noteq> [] \<and> k r = Some y"
      by (rule lazy_dots_then_suffix)
    then obtain pre r where "cs = pre @ r" "k r = Some y"
      by blast
    then have "s = (c # pre) @ r \<and> c # pre \<noteq> [] \<and> k r = Some y"
      by (simp add: Cons)
    then show ?thesis by blast
  next
    assume "k cs = Some y"
    then have "s = [c] @ cs \<and> [c] \<noteq> [] \<and> k cs = Some y"
      by (simp add: Cons)
    then show ?thesis by blast
  qed
qed

lemma fragment_suffix:
  "fragment s = Some t \<Longrightarrow> \<exists>pre. s = pre @ t \<and> t \<noteq> [] \<and> is_terminator (hd t)"
proof (induction s arbitrary: t rule: length_induct)
  case (1 s)
  show ?case
  proof (cases "s \<noteq> [] \<and> is_terminator (hd s)")
    case True
    with "1.prems" have "s = [] @ t \<and> t \<noteq> [] \<and> is_terminator (hd t)"
      by (simp add: fragment.simps [of s])
    then show ?thesis ..
  next
    case False
    with "1.prems" have "fragment_item fragment s = Some t"
      by (auto simp add: fragment.simps [of s])
    then have "\<exists>pre r. s = pre @ r \<and> pre \<noteq> [] \<and> fragment r = Some t"
      by (rule fragment_item_suffix)
    then obtain pre r where r: "s = pre @ r" "pre \<noteq> []" "fragment r = Some t"
      by blast
    then have "length r < length s"
      by simp
    with "1.IH" r(3) obtain pre' where "r = pre' @ t" "t \<noteq> []" "is_terminator (hd t)"
      by blast
    with r(1) have "s = (pre @ pre') @ t \<and> t \<noteq> [] \<and> is_terminator (hd t)"
      by simp
    then show ?thesis ..
  qed
qed

lemma until_comment_end_suffix:
  "until_comment_end s = Some r \<Longrightarrow> \<exists>pre. s = pre @ r \<and> pre \<noteq> []"
proof (induction s)
  case Nil
  then show ?case by simp
next
  case (Cons c cs)
  show ?case
  proof (cases "c = CHR ''*'' \<and> take 1 cs = ''/''")
    case True
    with Cons.prems have "r = drop 1 cs"
      by simp
    then have "c # cs = (c # take 1 cs) @ r \<and> c # take 1 cs \<noteq> []"
      by simp
    then show ?thesis ..
  next
    case False
    with Cons.prems have "until_comment_end cs = Some r"
      by (simp split: if_splits)
    with Cons.IH obtain pre where "cs = pre @ r"
      by blast
    then have "c # cs = (c # pre) @ r \<and> c # pre \<noteq> []"
      by simp
    then show ?thesis ..
  qed
qed

lemma alternatives_suffix:
  assumes "alternatives s = Some (g1, g2, r)"
  shows "\<exists>pre. s = pre @ r \<and> pre \<noteq> []"
proof (cases "take 2 s = ''//''")
  case True
  with assms have r: "r = dropWhile (\<lambda>c. \<not> is_line_terminator c) (drop 2 s)"
    by (simp add: alternatives_def)
  have "s = (take 2 s @ takeWhile (\<lambda>c. \<not> is_line_terminator c) (drop 2 s)) @ r"
    by (simp add: r)
  moreover from True have "take 2 s @ takeWhile (\<lambda>c. \<not> is_line_terminator c) (drop 2 s) \<noteq> []"
    by auto
  ultimately show ?thesis by blast
next
  case no_line: False
  show ?thesis
  proof (cases "if take 2 s = ''/*'' then until_comment_end (drop 2 s) else None")
    case (Some r')
    with no_line assms have "r = r'"
      by (simp add: alternatives_def)
    with Some have "until_comment_end (drop 2 s) = Some r"
      by (simp split: if_splits)
    then obtain pre where "drop 2 s = pre @ r"
      using until_comment_end_suffix by blast
    then have "s = (take 2 s @ pre) @ r"
      by (metis append_assoc append_take_drop_id)
    moreover from Some have "take 2 s \<noteq> []"
      by (auto split: if_splits)
    ultimately show ?thesis by blast
  next
    case None
    with no_line assms obtain t where t: "fragment s = Some t" "r = drop 1 t"
      by (auto simp: alternatives_def split: option.splits)
    from t(1) obtain pre where pre: "s = pre @ t" "t \<noteq> []"
      using fragment_suffix by blast
    then have "s = (pre @ take 1 t) @ r \<and> pre @ take 1 t \<noteq> []"
      by (simp add: t(2))
    then show ?thesis ..
  qed
qed

lemma alternatives_groups:
  assumes "alternatives s = Some (Some sel, g2, r)"
  shows "\<exists>e. g2 = Some [e] \<and> is_terminator e \<and> s = sel @ e # r"
proof -
  from assms obtain t where t: "fragment s = Some t"
     "sel = take (length s - length t) s" "g2 = Some (take 1 t)" "r = drop 1 t"
    by (auto simp: alternatives_def split: option.splits if_splits)
  from t(1) obtain pre where pre: "s = pre @ t" "t \<noteq> []" "is_terminator (hd t)"
    using fragment_suffix by blast
  from pre(2) have "t = hd t # drop 1 t"
    by (cases t) auto
  with pre t have "g2 = Some [hd t] \<and> is_terminator (hd t) \<and> s = sel @ hd t # r"
    by (cases t) auto
  then show ?thesis ..
qed

lemma spaces_then_suffix:
  "spaces_then s k = Some y \<Longrightarrow> \<exists>w t. s = w @ t \<and> k t = Some y"
proof (induction s)
  case Nil
  then have "[] = [] @ [] \<and> k [] = Some y"
    by simp
  then show ?case by (intro exI)
next
  case (Cons c cs)
  show ?case
  proof (cases "k (c # cs) = Some y")
    case True
    then have "c # cs = [] @ (c # cs) \<and> k (c # cs) = Some y"
      by simp
    then show ?thesis by (intro exI)
  next
    case False
    with Cons.prems have "spaces_then cs k = Some y"
      by (auto split: if_splits option.splits)
    then have "\<exists>w t. cs = w @ t \<and> k t = Some y"
      by (rule Cons.IH)
    then obtain w t where "cs = w @ t" "k t = Some y"
      by (elim exE conjE)
    then have "c # cs = (c # w) @ t \<and> k t = Some y"
      by simp
    then show ?thesis by (intro exI)
  qed
qed

lemma re_exec_match:
  "re_exec doc i = Some m \<Longrightarrow>
     \<exists>p r. i \<le> p \<and> p \<le> length doc
       \<and> alternatives (drop p doc) = Some (group1 m, group2 m, r)
       \<and> lastIndex m = length doc - length r"
proof (induction doc i rule: re_exec.induct)
  case (1 doc i)
  show ?case
  proof (cases "length doc < i")
    case True
    with "1.prems" show ?thesis by (simp add: re_exec.simps [of doc i])
  next
    case le: False
    show ?thesis
    proof (cases "spaces_then (drop i doc) alternatives")
      case None
      with le "1.prems" have "re_exec doc (Suc i) = Some m"
        by (simp add: re_exec.simps [of doc i])
      with "1.IH" le None obtain p r where "Suc i \<le> p" "p \<le> length doc"
          "alternatives (drop p doc) = Some (group1 m, group2 m, r)"
          "lastIndex m = length doc - length r"
        by blast
      then have "i \<le> p \<and> p \<le> length doc
          \<and> alternatives (drop p doc) = Some (group1 m, group2 m, r)
          \<and> lastIndex m = length doc - length r"
        by simp
      then show ?thesis by blast
    next
      case (Some y)
      obtain g1 g2 r where y: "y = (g1, g2, r)"
        by (cases y)
      with le Some "1.prems" have m: "group1 m = g1" "group2 m = g2"
          "lastIndex m = length doc - length r"
        by (auto simp add: re_exec.simps [of doc i])
      from Some y have "spaces_then (drop i doc) alternatives = Some (g1, g2, r)"
        by simp
      then have "\<exists>w t. drop i doc = w @ t \<and> alternatives t = Some (g1, g2, r)"
        by (rule spaces_then_suffix)
      then obtain w t where wt: "drop i doc = w @ t" "alternatives t = Some (g1, g2, r)"
        by (elim exE conjE)
      from wt(1) have "drop (length w) (drop i doc) = t"
        by simp
      then have t: "t = drop (i + length w) doc"
        by (simp add: add.commute)
      from wt(1) have "length w \<le> length doc - i"
        by (metis length_append length_drop le_add1)
      with le have "i + length w \<le> length doc"
        by simp
      with wt(2) t m have "i \<le> i + length w \<and> i + length w \<le> length doc
          \<and> alternatives (drop (i + length w) doc) = Some (group1 m, group2 m, r)
          \<and> lastIndex m = length doc - length r"
        by simp
      then show ?thesis by blast
    qed
  qed
qed

lemma re_exec_bounds:
  assumes "re_exec doc i = Some m"
  shows "i < lastIndex m \<and> lastIndex m \<le> length doc"
proof -
  from assms obtain p r where p: "i \<le> p" "p \<le> length doc"
      "alternatives (drop p doc) = Some (group1 m, group2 m, r)"
      "lastIndex m = length doc - length r"
    using re_exec_match by blast
  from p(3) obtain pre where "drop p doc = pre @ r" "pre \<noteq> []"
    using alternatives_suffix by blast
  then obtain a pre' where "drop p doc = (a # pre') @ r"
    by (cases pre) auto
  then have "length (drop p doc) = Suc (length pre') + length r"
    by simp
  with p show ?thesis by simp
qed

lemma re_exec_groups:
  assumes "re_exec doc i = Some m" and "group1 m = Some sel"
  shows "\<exists>p e. i \<le> p \<and> group2 m = Some [e] \<and> is_terminator e
      \<and> lastIndex m = p + length sel + 1 \<and> lastIndex m \<le> length doc
      \<and> take (length sel) (drop p doc) = sel \<and> doc ! (lastIndex m - 1) = e"
proof -
  from assms obtain p r where p: "i \<le> p" "p \<le> length doc"
      "alternatives (drop p doc) = Some (Some sel, group2 m, r)"
      "lastIndex m = length doc - length r"
    using re_exec_match by metis
  from p(3) obtain e where e: "group2 m = Some [e]" "is_terminator e"
      "drop p doc = sel @ e # r"
    using alternatives_groups by blast
  from e(3) have "length (drop p doc) = length (sel @ e # r)"
    by simp
  then have len: "length doc - p = length sel + 1 + length r"
    by simp
  with p have li: "lastIndex m = p + length sel + 1" "lastIndex m \<le> length doc"
    by simp_all
  from e(3) have "drop p doc ! length sel = e"
    by simp
  with p(2) len have "doc ! (p + length sel) = e"
    by simp
  with li e p(1) have "i \<le> p \<and> group2 m = Some [e] \<and> is_terminator e
      \<and> lastIndex m = p + length sel + 1 \<and> lastIndex m \<le> length doc
      \<and> take (length sel) (drop p doc) = sel \<and> doc ! (lastIndex m - 1) = e"
    by simp
  then show ?thesis by blast
qed

section \<open>\<open>parseToNames\<close>\<close>

definition at_keyword :: "string \<Rightarrow> string option" where
  \<comment> \<open>\<open>selectors.match(/^@[\w-]+/)\<close>: the matched text\<close>
  "at_keyword s =
     (case s of
        [] \<Rightarrow> None
      | c # cs \<Rightarrow>
          if c = CHR ''@'' \<and> takeWhile is_word_dash cs \<noteq> []
          then Some (c # takeWhile is_word_dash cs) else None)"

text \<open>
  \<open>/((?:\[.*?\]|\(.*?\)|.)+?)(?:,|$)/gs\<close>, in the same style. Under the \<open>s\<close> flag
  \<open>.\<close> matches every character.
\<close>

fun lazy_any_then :: "char \<Rightarrow> string \<Rightarrow> (string \<Rightarrow> 'a option) \<Rightarrow> 'a option" where
  \<comment> \<open>\<open>.*?q\<close> followed by \<open>k\<close>\<close>
  "lazy_any_then q [] k = None"
| "lazy_any_then q (c # cs) k =
     (case (if c = q then k cs else None) of
        Some r \<Rightarrow> Some r
      | None \<Rightarrow> lazy_any_then q cs k)"

lemma lazy_any_then_ext:
  "(\<And>r. length r < length cs \<Longrightarrow> k r = k' r)
   \<Longrightarrow> lazy_any_then q cs k = lazy_any_then q cs k'"
proof (induction cs)
  case Nil
  show ?case by simp
next
  case (Cons c cs)
  have "k cs = k' cs"
    by (rule Cons.prems) simp
  moreover have "lazy_any_then q cs k = lazy_any_then q cs k'"
    by (rule Cons.IH, rule Cons.prems) simp
  ultimately show ?case by (simp split: option.split)
qed

lemma lazy_any_then_cong [fundef_cong]:
  "q = q' \<Longrightarrow> cs = cs' \<Longrightarrow> (\<And>r. length r < length cs' \<Longrightarrow> k r = k' r)
   \<Longrightarrow> lazy_any_then q cs k = lazy_any_then q' cs' k'"
  using lazy_any_then_ext [of cs' k k' q'] by simp

definition name_item :: "(string \<Rightarrow> string option) \<Rightarrow> string \<Rightarrow> string option" where
  \<comment> \<open>one round of \<open>(?:\[.*?\]|\(.*?\)|.)\<close> followed by \<open>k\<close>\<close>
  "name_item k s =
     (case s of
        [] \<Rightarrow> None
      | c # cs \<Rightarrow>
          (case (if c = CHR ''['' then lazy_any_then (CHR '']'') cs k else None) of
             Some r \<Rightarrow> Some r
           | None \<Rightarrow>
              (case (if c = CHR ''('' then lazy_any_then (CHR '')'') cs k else None) of
                 Some r \<Rightarrow> Some r
               | None \<Rightarrow> k cs)))"

lemma name_item_ext:
  assumes "\<And>r. length r < length s \<Longrightarrow> k r = k' r"
  shows "name_item k s = name_item k' s"
proof (cases s)
  case Nil
  then show ?thesis by (simp add: name_item_def)
next
  case (Cons c cs)
  have l: "lazy_any_then q cs k = lazy_any_then q cs k'" for q
    by (rule lazy_any_then_ext, rule assms) (simp add: Cons)
  have "k cs = k' cs"
    by (rule assms) (simp add: Cons)
  with l Cons show ?thesis
    by (simp add: name_item_def split: option.split)
qed

lemma name_item_cong [fundef_cong]:
  "s = s' \<Longrightarrow> (\<And>r. length r < length s' \<Longrightarrow> k r = k' r)
   \<Longrightarrow> name_item k s = name_item k' s'"
  using name_item_ext [of s' k k'] by simp

function name_more :: "string \<Rightarrow> string option" where
  \<comment> \<open>the further rounds of \<open>+?\<close> followed by \<open>(?:,|$)\<close>: the text from the end of
      group 1 on, which is empty or starts with the comma\<close>
  "name_more s = (if s = [] \<or> hd s = CHR '','' then Some s else name_item name_more s)"
  by pat_completeness auto
termination
  by (relation "measure length") auto

declare name_more.simps [simp del]

function names_exec :: "string \<Rightarrow> nat \<Rightarrow> (string \<times> nat) option" where
  \<comment> \<open>\<open>re.exec(selectors)\<close> with \<open>re.lastIndex = i\<close>: group 1 and the new \<open>lastIndex\<close>\<close>
  "names_exec selectors i =
     (if length selectors < i then None
      else
        (case name_item name_more (drop i selectors) of
           Some r \<Rightarrow>
             Some (take (length selectors - i - length r) (drop i selectors),
                   length selectors - length r + (if r = [] then 0 else 1))
         | None \<Rightarrow> names_exec selectors (Suc i)))"
  by pat_completeness auto
termination
  by (relation "measure (\<lambda>(selectors, i). Suc (length selectors) - i)") auto

declare names_exec.simps [simp del]

lemma lazy_any_then_shorter:
  "lazy_any_then q cs k = Some y \<Longrightarrow> \<exists>r. k r = Some y \<and> length r < length cs"
proof (induction cs)
  case Nil
  then show ?case by simp
next
  case (Cons c cs)
  show ?case
  proof (cases "c = q \<and> k cs = Some y")
    case True
    then show ?thesis by auto
  next
    case False
    with Cons.prems have "lazy_any_then q cs k = Some y"
      by (auto split: option.splits if_splits)
    with Cons.IH obtain r where "k r = Some y" "length r < length cs"
      by blast
    then show ?thesis by auto
  qed
qed

lemma name_item_cases:
  assumes "name_item k (c # cs) = Some y"
  shows "(\<exists>q. lazy_any_then q cs k = Some y) \<or> k cs = Some y"
proof (cases "k cs = Some y")
  case True
  then show ?thesis by simp
next
  case False
  show ?thesis
  proof (rule ccontr)
    assume "\<not> ?thesis"
    then have n: "\<And>q. lazy_any_then q cs k \<noteq> Some y" by blast
    from assms False n [of "CHR '']''"] n [of "CHR '')''"] show False
      unfolding name_item_def list.case
      by (simp split: option.splits if_splits)
  qed
qed

lemma name_item_shorter:
  assumes "name_item k s = Some y"
  shows "\<exists>r. k r = Some y \<and> length r < length s"
proof (cases s)
  case Nil
  with assms show ?thesis by (simp add: name_item_def)
next
  case (Cons c cs)
  from assms have "name_item k (c # cs) = Some y"
    unfolding Cons .
  then have "(\<exists>q. lazy_any_then q cs k = Some y) \<or> k cs = Some y"
    by (rule name_item_cases)
  then show ?thesis
  proof
    assume "\<exists>q. lazy_any_then q cs k = Some y"
    then obtain q where "lazy_any_then q cs k = Some y" ..
    then have "\<exists>r. k r = Some y \<and> length r < length cs"
      by (rule lazy_any_then_shorter)
    then obtain r where "k r = Some y" "length r < length cs"
      by blast
    then have "k r = Some y \<and> length r < length s"
      by (simp add: Cons)
    then show ?thesis ..
  next
    assume "k cs = Some y"
    then have "k cs = Some y \<and> length cs < length s"
      by (simp add: Cons)
    then show ?thesis ..
  qed
qed

lemma name_more_suffix:
  "name_more s = Some r \<Longrightarrow> length r \<le> length s"
proof (induction s arbitrary: r rule: length_induct)
  case (1 s)
  show ?case
  proof (cases "s = [] \<or> hd s = CHR '',''")
    case True
    with "1.prems" show ?thesis by (auto simp add: name_more.simps [of s])
  next
    case False
    with "1.prems" have "name_item name_more s = Some r"
      by (auto simp add: name_more.simps [of s])
    then have "\<exists>t. name_more t = Some r \<and> length t < length s"
      by (rule name_item_shorter)
    then obtain t where t: "name_more t = Some r" "length t < length s"
      by blast
    with "1.IH" have "length r \<le> length t"
      by blast
    with t show ?thesis by simp
  qed
qed

lemma name_plus_shorter:
  assumes "name_item name_more s = Some r"
  shows "length r < length s"
proof -
  from assms have "\<exists>t. name_more t = Some r \<and> length t < length s"
    by (rule name_item_shorter)
  then obtain t where t: "name_more t = Some r" "length t < length s"
    by blast
  from t(1) have "length r \<le> length t"
    by (rule name_more_suffix)
  with t show ?thesis by simp
qed

lemma names_exec_bounds:
  "names_exec selectors i = Some (g, li) \<Longrightarrow> i < li \<and> li \<le> length selectors"
proof (induction selectors i rule: names_exec.induct)
  case (1 selectors i)
  show ?case
  proof (cases "length selectors < i")
    case True
    with "1.prems" show ?thesis by (simp add: names_exec.simps [of selectors i])
  next
    case le: False
    show ?thesis
    proof (cases "name_item name_more (drop i selectors)")
      case None
      with le "1.prems" have "names_exec selectors (Suc i) = Some (g, li)"
        by (simp add: names_exec.simps [of selectors i])
      with "1.IH" le None have "Suc i < li \<and> li \<le> length selectors"
        by simp
      then show ?thesis by simp
    next
      case (Some r)
      then have "length r < length (drop i selectors)"
        by (rule name_plus_shorter)
      moreover from le Some "1.prems"
      have "li = length selectors - length r + (if r = [] then 0 else 1)"
        by (simp add: names_exec.simps [of selectors i])
      ultimately show ?thesis
        using le by (cases r) auto
    qed
  qed
qed

function names_loop :: "bool \<Rightarrow> string \<Rightarrow> nat \<Rightarrow> LeafName list" where
  \<comment> \<open>\<open>while (match = re.exec(selectors))\<close>, with \<open>re.lastIndex = i\<close> on entry\<close>
  "names_loop sel selectors i =
     (case names_exec selectors i of
        None \<Rightarrow> []
      | Some (g, li) \<Rightarrow>
          (let name = trim g
           in (if name \<noteq> [] then [\<lparr>raw = name, full = name, isSelector = sel\<rparr>] else [])
              @ names_loop sel selectors li))"
  by pat_completeness auto
termination
proof (relation "measure (\<lambda>(sel, selectors, i). Suc (length selectors) - i)")
  show "wf (measure (\<lambda>(sel, selectors, i). Suc (length selectors) - i))"
    by simp
next
  fix sel :: bool and selectors :: string and i :: nat and x2 g li
  assume "names_exec selectors i = Some x2" and "(g, li) = x2"
  then have "names_exec selectors i = Some (g, li)"
    by simp
  then have "i < li \<and> li \<le> length selectors"
    by (rule names_exec_bounds)
  then show "((sel, selectors, li), (sel, selectors, i))
      \<in> measure (\<lambda>(sel, selectors, i). Suc (length selectors) - i)"
    by auto
qed

declare names_loop.simps [simp del]

definition parseToNames :: "CSSRangeParser \<Rightarrow> string \<Rightarrow> LeafName list" where
  "parseToNames this selectors =
     (case at_keyword selectors of
        Some command \<Rightarrow>
          if languageId this = ''scss'' \<and> command = ''@at-root'' then
            \<lparr>raw = command, full = command, isSelector = False\<rparr>
              # names_loop (ignoreDeep this = 0)
                  (trimLeft (drop (length command) selectors)) 0
          else [\<lparr>raw = selectors, full = selectors, isSelector = False\<rparr>]
      | None \<Rightarrow> names_loop (ignoreDeep this = 0) selectors 0)"

section \<open>\<open>combineNestingNames\<close>\<close>

definition reference_at :: "string \<Rightarrow> nat \<Rightarrow> bool" where
  \<comment> \<open>\<open>/(?<=^|[\s+>~])&/\<close> matches at index \<open>p\<close>\<close>
  "reference_at s p =
     (p < length s \<and> s ! p = CHR ''&'' \<and> (p = 0 \<or> is_combinator (s ! (p - 1))))"

definition re_test :: "string \<Rightarrow> nat \<Rightarrow> bool \<times> nat" where
  \<comment> \<open>\<open>re.test(s)\<close> of the global expression with \<open>re.lastIndex = i\<close>: the result and
      the \<open>lastIndex\<close> it leaves\<close>
  "re_test s i =
     (if length s < i then (False, 0)
      else
        (case find (reference_at s) [i..<length s] of
           None \<Rightarrow> (False, 0)
         | Some p \<Rightarrow> (True, Suc p)))"

fun get_substitution :: "string \<Rightarrow> string \<Rightarrow> string \<Rightarrow> string \<Rightarrow> string" where
  \<comment> \<open>the replacement text of \<open>replace\<close> for one match: \<open>$$\<close>, \<open>$&\<close>, the text before
      the match and the text after it are substituted; the expression has no groups, so
      \<open>$1\<close> and the like stay as they are\<close>
  "get_substitution matched pre post [] = []"
| "get_substitution matched pre post [c] = [c]"
| "get_substitution matched pre post (c # d # t) =
     (if c = CHR ''$'' \<and> d = CHR ''$'' then CHR ''$'' # get_substitution matched pre post t
      else if c = CHR ''$'' \<and> d = CHR ''&'' then matched @ get_substitution matched pre post t
      else if c = CHR ''$'' \<and> d = CHR 0x60 then pre @ get_substitution matched pre post t
      else if c = CHR ''$'' \<and> d = CHR 0x27 then post @ get_substitution matched pre post t
      else c # get_substitution matched pre post (d # t))"

definition replace_references :: "string \<Rightarrow> string \<Rightarrow> string" where
  \<comment> \<open>\<open>s.replace(re, parentFullName)\<close>: every match is replaced\<close>
  "replace_references s parentFullName =
     concat (map (\<lambda>p. if reference_at s p
                        then get_substitution ''&'' (take p s) (drop (Suc p) s) parentFullName
                        else [s ! p])
                 [0..<length s])"

fun combine_loop :: "string list option \<Rightarrow> LeafName list \<Rightarrow> nat \<Rightarrow> LeafName list" where
  \<comment> \<open>\<open>for (let oldName of oldNames)\<close>; the last argument is \<open>re.lastIndex\<close>, which
      \<open>test\<close> leaves behind and \<open>replace\<close> resets\<close>
  "combine_loop parentFullNames [] li = []"
| "combine_loop parentFullNames (oldName # oldNames) li =
     (if \<not> isSelector oldName then oldName # combine_loop parentFullNames oldNames li
      else
        (case parentFullNames of
           None \<Rightarrow> oldName # combine_loop parentFullNames oldNames li
         | Some ps \<Rightarrow>
             (case re_test (full oldName) li of
                (True, li') \<Rightarrow>
                  map (\<lambda>parentFullName.
                         \<lparr>raw = raw oldName,
                          full = replace_references (full oldName) parentFullName,
                          isSelector = True\<rparr>) ps
                  @ combine_loop parentFullNames oldNames (if ps = [] then li' else 0)
              | (False, li') \<Rightarrow>
                  map (\<lambda>parentFullName.
                         \<lparr>raw = raw oldName,
                          full = parentFullName @ '' '' @ full oldName,
                          isSelector = True\<rparr>) ps
                  @ combine_loop parentFullNames oldNames li')))"

partial_function (option) closest_block :: "LeafRange list \<Rightarrow> nat option \<Rightarrow> nat option option" where
  \<comment> \<open>the \<open>while (parent)\<close> loop of \<open>getClosestSelectorTypeFullNames\<close>\<close>
  "closest_block rs p =
     (case p of
        None \<Rightarrow> Some None
      | Some a \<Rightarrow>
          if 1 < length (names (rs ! a))
             \<or> (names (rs ! a) \<noteq> [] \<and> isSelector (hd (names (rs ! a))))
          then Some (Some a)
          else closest_block rs (parent (rs ! a)))"

declare closest_block.simps [code]

definition getClosestSelectorTypeFullNames ::
    "CSSRangeParser \<Rightarrow> LeafRange list \<Rightarrow> string list option option" where
  \<comment> \<open>the inner \<open>None\<close> is \<open>null\<close>\<close>
  "getClosestSelectorTypeFullNames this rs =
     (case closest_block rs (current this) of
        None \<Rightarrow> None
      | Some None \<Rightarrow> Some None
      | Some (Some a) \<Rightarrow> Some (Some (map full (filter isSelector (names (rs ! a))))))"

definition combineNestingNames ::
    "CSSRangeParser \<Rightarrow> LeafRange list \<Rightarrow> LeafName list \<Rightarrow> LeafName list option" where
  "combineNestingNames this rs oldNames =
     (case getClosestSelectorTypeFullNames this rs of
        None \<Rightarrow> None
      | Some parentFullNames \<Rightarrow> Some (combine_loop parentFullNames oldNames 0))"

section \<open>The block scanner\<close>

definition shouldIgnoreDeeply :: "string \<Rightarrow> bool" where
  "shouldIgnoreDeeply declaration = (take 10 declaration = ''@keyframes'')"

definition leaf_names ::
    "CSSRangeParser \<Rightarrow> LeafRange list \<Rightarrow> string \<Rightarrow> LeafName list option" where
  \<comment> \<open>the value of \<open>names\<close> in \<open>newLeafRange\<close>\<close>
  "leaf_names this rs selector =
     (if supportsNesting this \<and> ignoreDeep this = 0 \<and> current this \<noteq> None
      then combineNestingNames this rs (parseToNames this selector)
      else Some (parseToNames this selector))"

definition newLeafRange ::
    "CSSRangeParser \<Rightarrow> LeafRange list \<Rightarrow> string \<Rightarrow> int \<Rightarrow> (LeafRange \<times> CSSRangeParser) option" where
  "newLeafRange this rs selector start0 =
     (case leaf_names this rs selector of
        None \<Rightarrow> None
      | Some ns \<Rightarrow>
          Some (\<lparr>names = ns, start = start0, end' = 0, parent = current this\<rparr>,
                (case current this of
                   Some p \<Rightarrow>
                     if supportsNesting this then this\<lparr>stack := p # stack this\<rparr> else this
                 | None \<Rightarrow> this)))"

definition close_block :: "int \<Rightarrow> nat \<Rightarrow> LeafRange list \<Rightarrow> LeafRange list" where
  \<comment> \<open>the assignment \<open>this.current.end = e\<close>, with \<open>this.current\<close> at \<open>c\<close>\<close>
  "close_block e c rs = rs[c := (rs ! c)\<lparr>end' := e\<rparr>]"

definition count_ignored :: "string \<Rightarrow> CSSRangeParser \<Rightarrow> CSSRangeParser" where
  \<comment> \<open>\<open>if (this.ignoreDeep > 0 || this.shouldIgnoreDeeply(selector)) this.ignoreDeep++\<close>\<close>
  "count_ignored selector this =
     (if 0 < ignoreDeep this \<or> shouldIgnoreDeeply selector
      then this\<lparr>ignoreDeep := ignoreDeep this + 1\<rparr> else this)"

definition loop_body ::
    "RegExpExecArray \<Rightarrow> CSSRangeParser \<times> LeafRange list \<Rightarrow> (CSSRangeParser \<times> LeafRange list) option" where
  \<comment> \<open>the body of the \<open>while\<close> loop of \<open>parse\<close>, for one match\<close>
  "loop_body m s =
     (case s of (this, rs) \<Rightarrow>
        if group2 m = Some ''{'' \<and> group1 m \<noteq> None \<and> group1 m \<noteq> Some [] then
          (let selector = collapse_spaces (trimRight (the (group1 m)))
           in (case newLeafRange (count_ignored selector this) rs selector
                      (int (lastIndex m) - int (length selector) - 1) of
                 None \<Rightarrow> None
               | Some (r, this2) \<Rightarrow> Some (this2\<lparr>current := Some (length rs)\<rparr>, rs @ [r])))
        else if group2 m = Some ''}'' then
          (let this1 = (if 0 < ignoreDeep this
                        then this\<lparr>ignoreDeep := ignoreDeep this - 1\<rparr> else this)
           in (case current this1 of
                 None \<Rightarrow> Some (this1, rs)
               | Some c \<Rightarrow>
                   Some (if supportsNesting this1
                         then (case stack this1 of
                                 [] \<Rightarrow> this1\<lparr>current := None\<rparr>
                               | p # ps \<Rightarrow> this1\<lparr>current := Some p, stack := ps\<rparr>)
                         else this1,
                         close_block (int (lastIndex m)) c rs)))
        else Some (this, rs))"

function parse_loop ::
    "string \<Rightarrow> nat \<Rightarrow> CSSRangeParser \<times> LeafRange list \<Rightarrow> (CSSRangeParser \<times> LeafRange list) option" where
  \<comment> \<open>\<open>while (match = re.exec(text))\<close>, with \<open>re.lastIndex = i\<close> on entry\<close>
  "parse_loop text i s =
     (case re_exec text i of
        None \<Rightarrow> Some s
      | Some m \<Rightarrow>
          (case loop_body m s of
             None \<Rightarrow> None
           | Some s' \<Rightarrow> parse_loop text (lastIndex m) s'))"
  by pat_completeness auto
termination
proof (relation "measure (\<lambda>(doc, i, s). Suc (length doc) - i)")
  show "wf (measure (\<lambda>(doc :: string, i :: nat, s :: CSSRangeParser \<times> LeafRange list).
      Suc (length doc) - i))"
    by simp
next
  fix doc :: string and i :: nat and s s' :: "CSSRangeParser \<times> LeafRange list" and m
  assume "re_exec doc i = Some m"
  then have "i < lastIndex m \<and> lastIndex m \<le> length doc"
    by (rule re_exec_bounds)
  then show "((doc, lastIndex m, s'), (doc, i, s)) \<in> measure (\<lambda>(doc, i, s). Suc (length doc) - i)"
    by auto
qed

declare parse_loop.simps [simp del]

definition close_at_end :: "string \<Rightarrow> CSSRangeParser \<times> LeafRange list \<Rightarrow> LeafRange list" where
  \<comment> \<open>the statement after the loop: \<open>if (this.current) { if (this.current.end === 0) ... }\<close>\<close>
  "close_at_end text s =
     (case s of (this, rs) \<Rightarrow>
        (case current this of
           None \<Rightarrow> rs
         | Some c \<Rightarrow>
             if end' (rs ! c) = 0 then close_block (int (length text)) c rs else rs))"

definition scan :: "CSSRangeParser \<Rightarrow> (LeafRange list \<times> CSSRangeParser) option" where
  \<comment> \<open>\<open>parse\<close> up to its \<open>return\<close>: the array \<open>ranges\<close> and the object as the call leaves it\<close>
  "scan this =
     (case parse_loop (document this) 0 (this, []) of
        None \<Rightarrow> None
      | Some s \<Rightarrow> Some (close_at_end (document this) s, fst s))"

section \<open>The main selector\<close>

text \<open>\<open>/(?:\[[^\]]*?\]|\([^)]*?\)|[^\s+>~])+?$/\<close>, in the same style.\<close>

fun lazy_not_then :: "char \<Rightarrow> string \<Rightarrow> (string \<Rightarrow> bool) \<Rightarrow> bool" where
  \<comment> \<open>\<open>[^q]*?q\<close> followed by \<open>k\<close>\<close>
  "lazy_not_then q [] k = False"
| "lazy_not_then q (c # cs) k = (if c = q then k cs else lazy_not_then q cs k)"

lemma lazy_not_then_ext:
  "(\<And>r. length r < length cs \<Longrightarrow> k r = k' r)
   \<Longrightarrow> lazy_not_then q cs k = lazy_not_then q cs k'"
proof (induction cs)
  case Nil
  show ?case by simp
next
  case (Cons c cs)
  have "k cs = k' cs"
    by (rule Cons.prems) simp
  moreover have "lazy_not_then q cs k = lazy_not_then q cs k'"
    by (rule Cons.IH, rule Cons.prems) simp
  ultimately show ?case by simp
qed

lemma lazy_not_then_cong [fundef_cong]:
  "q = q' \<Longrightarrow> cs = cs' \<Longrightarrow> (\<And>r. length r < length cs' \<Longrightarrow> k r = k' r)
   \<Longrightarrow> lazy_not_then q cs k = lazy_not_then q' cs' k'"
  using lazy_not_then_ext [of cs' k k' q'] by simp

definition descendant_item :: "(string \<Rightarrow> bool) \<Rightarrow> string \<Rightarrow> bool" where
  \<comment> \<open>one round of \<open>(?:\[[^\]]*?\]|\([^)]*?\)|[^\s+>~])\<close> followed by \<open>k\<close>\<close>
  "descendant_item k s =
     (case s of
        [] \<Rightarrow> False
      | c # cs \<Rightarrow>
          if c = CHR ''['' \<and> lazy_not_then (CHR '']'') cs k then True
          else if c = CHR ''('' \<and> lazy_not_then (CHR '')'') cs k then True
          else if is_combinator c then False
          else k cs)"

lemma descendant_item_ext:
  assumes "\<And>r. length r < length s \<Longrightarrow> k r = k' r"
  shows "descendant_item k s = descendant_item k' s"
proof (cases s)
  case Nil
  then show ?thesis by (simp add: descendant_item_def)
next
  case (Cons c cs)
  have l: "lazy_not_then q cs k = lazy_not_then q cs k'" for q
    by (rule lazy_not_then_ext, rule assms) (simp add: Cons)
  have "k cs = k' cs"
    by (rule assms) (simp add: Cons)
  with l Cons show ?thesis
    by (simp add: descendant_item_def)
qed

lemma descendant_item_cong [fundef_cong]:
  "s = s' \<Longrightarrow> (\<And>r. length r < length s' \<Longrightarrow> k r = k' r)
   \<Longrightarrow> descendant_item k s = descendant_item k' s'"
  using descendant_item_ext [of s' k k'] by simp

function descendant_more :: "string \<Rightarrow> bool" where
  \<comment> \<open>the further rounds of \<open>+?\<close> followed by \<open>$\<close>\<close>
  "descendant_more s = (if s = [] then True else descendant_item descendant_more s)"
  by pat_completeness auto
termination
  by (relation "measure length") auto

declare descendant_more.simps [simp del]

definition getRightMostDescendant :: "string \<Rightarrow> string" where
  \<comment> \<open>\<open>selector.match(descendantRE)\<close>: the first start, from the left, at which the
      expression matches; the match runs to the end of the selector\<close>
  "getRightMostDescendant selector =
     (case find (\<lambda>i. descendant_item descendant_more (drop i selector))
                [0..<Suc (length selector)] of
        Some i \<Rightarrow> drop i selector
      | None \<Rightarrow> [])"

definition hasSingleReferenceInRightMostDescendant :: "string \<Rightarrow> bool" where
  \<comment> \<open>\<open>/^&(?:[^\w-]|$)/.test(rightMost)\<close>\<close>
  "hasSingleReferenceInRightMostDescendant selector =
     (case getRightMostDescendant selector of
        [] \<Rightarrow> False
      | c # cs \<Rightarrow> c = CHR ''&'' \<and> (case cs of [] \<Rightarrow> True | d # ds \<Rightarrow> \<not> is_word_dash d))"

definition word_run :: "string \<Rightarrow> string option" where
  \<comment> \<open>\<open>\w[\w-]*\<close> at the start of the text\<close>
  "word_run s =
     (case s of
        [] \<Rightarrow> None
      | c # cs \<Rightarrow> if is_word c then Some (c # takeWhile is_word_dash cs) else None)"

definition main_token :: "string \<Rightarrow> string option" where
  \<comment> \<open>\<open>rightMost.match(/^[#.]?\w[\w-]*/)\<close>: the greedy \<open>[#.]?\<close> takes the prefix
      when it is there, and is given up when no word follows\<close>
  "main_token s =
     (case (case s of
              [] \<Rightarrow> None
            | c # cs \<Rightarrow>
                if c = CHR ''#'' \<or> c = CHR ''.'' then map_option ((#) c) (word_run cs)
                else None) of
        Some t \<Rightarrow> Some t
      | None \<Rightarrow> word_run s)"

definition getMainSelector :: "string \<Rightarrow> string" where
  "getMainSelector selector =
     (let rightMost = getRightMostDescendant selector
      in if rightMost = [] then []
         else
           (case main_token rightMost of
              None \<Rightarrow> []
            | Some main0 \<Rightarrow>
                if is_word (hd main0) \<and> length rightMost < length selector then []
                else main0))"

definition formatLeafNameToFullMainName :: "LeafName \<Rightarrow> FullMainName" where
  "formatLeafNameToFullMainName n =
     (if \<not> isSelector n then \<lparr>full' = full n, main = []\<rparr>
      else
        (let shouldHaveMain = \<not> hasSingleReferenceInRightMostDescendant (raw n)
         in \<lparr>full' = full n, main = (if shouldHaveMain then getMainSelector (full n) else [])\<rparr>))"

definition formatToNamedRanges :: "(int \<Rightarrow> 'p) \<Rightarrow> LeafRange list \<Rightarrow> 'p NamedRange list" where
  \<comment> \<open>\<open>positionAt\<close> is the document's, taken as a parameter\<close>
  "formatToNamedRanges positionAt leafRanges =
     map (\<lambda>r. \<lparr>names' = map formatLeafNameToFullMainName (names r),
                range' = (positionAt (start r), positionAt (end' r))\<rparr>) leafRanges"

definition parse :: "(int \<Rightarrow> 'p) \<Rightarrow> CSSRangeParser \<Rightarrow> ('p NamedRange list \<times> CSSRangeParser) option" where
  \<comment> \<open>\<open>parse()\<close>: the result and the object as the call leaves it; \<open>None\<close> when the
      call does not return\<close>
  "parse positionAt this =
     (case scan this of
        None \<Rightarrow> None
      | Some (rs, this') \<Rightarrow> Some (formatToNamedRanges positionAt rs, this'))"

section \<open>The constructor\<close>

definition isLanguageSupportsNesting :: "string \<Rightarrow> bool" where
  \<comment> \<open>Modelled from the spec: \<open>CSSService.isLanguageSupportsNesting\<close> is not among the
      sources; the spec names LESS and SCSS as the nesting-capable dialects and plain
      CSS as the one without nesting.\<close>
  "isLanguageSupportsNesting languageId0 = (languageId0 = ''less'' \<or> languageId0 = ''scss'')"

definition new_CSSRangeParser :: "string \<Rightarrow> string \<Rightarrow> CSSRangeParser" where
  \<comment> \<open>\<open>new CSSRangeParser(document)\<close>, for a document with this language and text\<close>
  "new_CSSRangeParser languageId0 text =
     (let languageId1 =
            (if languageId0 \<in> set [''css'', ''less'', ''scss''] then languageId0 else ''css'')
      in \<lparr>supportedLanguages = [''css'', ''less'', ''scss''],
          supportsNesting = isLanguageSupportsNesting languageId1,
          document = text,
          languageId = languageId1,
          stack = [],
          current = None,
          ignoreDeep = 0\<rparr>)"

subsection \<open>What one round of the loop does\<close>

lemma count_ignored_fields [simp]:
  "current (count_ignored selector this) = current this"
  "stack (count_ignored selector this) = stack this"
  "supportsNesting (count_ignored selector this) = supportsNesting this"
  "languageId (count_ignored selector this) = languageId this"
  "document (count_ignored selector this) = document this"
  by (simp_all add: count_ignored_def)

lemma newLeafRange_result:
  assumes "newLeafRange this rs selector st = Some (r, this')"
  shows "leaf_names this rs selector = Some (names r)
    \<and> start r = st \<and> end' r = 0 \<and> parent r = current this
    \<and> stack this' = (case current this of
                        Some p \<Rightarrow> if supportsNesting this then p # stack this else stack this
                      | None \<Rightarrow> stack this)
    \<and> current this' = current this \<and> ignoreDeep this' = ignoreDeep this
    \<and> supportsNesting this' = supportsNesting this \<and> languageId this' = languageId this
    \<and> document this' = document this"
  using assms unfolding newLeafRange_def
  by (auto split: option.splits)

lemma loop_body_opened:
  assumes "group2 m = Some ''{''" and "group1 m = Some sel" and "sel \<noteq> []"
    and "loop_body m (this, rs) = Some (this', rs')"
  shows "\<exists>r. rs' = rs @ [r]
    \<and> leaf_names (count_ignored (collapse_spaces (trimRight sel)) this) rs
         (collapse_spaces (trimRight sel)) = Some (names r)
    \<and> start r = int (lastIndex m) - int (length (collapse_spaces (trimRight sel))) - 1
    \<and> end' r = 0 \<and> parent r = current this
    \<and> current this' = Some (length rs)
    \<and> stack this' = (case current this of
                        Some p \<Rightarrow> if supportsNesting this then p # stack this else stack this
                      | None \<Rightarrow> stack this)
    \<and> ignoreDeep this' = ignoreDeep (count_ignored (collapse_spaces (trimRight sel)) this)
    \<and> supportsNesting this' = supportsNesting this \<and> languageId this' = languageId this
    \<and> document this' = document this"
proof -
  let ?selector = "collapse_spaces (trimRight sel)"
  have "loop_body m (this, rs) =
      (case newLeafRange (count_ignored ?selector this) rs ?selector
              (int (lastIndex m) - int (length ?selector) - 1) of
         None \<Rightarrow> None
       | Some (r, this2) \<Rightarrow> Some (this2\<lparr>current := Some (length rs)\<rparr>, rs @ [r]))"
    by (simp add: loop_body_def assms(1-3) Let_def)
  with assms(4) obtain r this2 where
    n: "newLeafRange (count_ignored ?selector this) rs ?selector
          (int (lastIndex m) - int (length ?selector) - 1) = Some (r, this2)"
    and r: "this' = this2\<lparr>current := Some (length rs)\<rparr>" "rs' = rs @ [r]"
    by (auto split: option.splits prod.splits)
  from newLeafRange_result [OF n] r show ?thesis
    by (simp cong: option.case_cong if_cong)
qed

lemma loop_body_closed:
  assumes "group2 m = Some ''}''" and "loop_body m (this, rs) = Some (this', rs')"
  shows "rs' = (case current this of None \<Rightarrow> rs | Some c \<Rightarrow> close_block (int (lastIndex m)) c rs)
    \<and> current this' = (if supportsNesting this
                         then (case current this of
                                 None \<Rightarrow> None
                               | Some c \<Rightarrow> (case stack this of [] \<Rightarrow> None | p # ps \<Rightarrow> Some p))
                         else current this)
    \<and> stack this' = (if supportsNesting this \<and> current this \<noteq> None
                       then tl (stack this) else stack this)
    \<and> ignoreDeep this' = ignoreDeep this - 1
    \<and> supportsNesting this' = supportsNesting this \<and> languageId this' = languageId this
    \<and> document this' = document this"
  using assms
  by (auto simp: loop_body_def Let_def split: option.splits list.splits if_splits)

lemma loop_body_skipped:
  assumes "group2 m \<noteq> Some ''}''"
    and "\<not> (group2 m = Some ''{'' \<and> group1 m \<noteq> None \<and> group1 m \<noteq> Some [])"
    and "loop_body m s = Some s'"
  shows "s' = s"
  using assms by (cases s) (auto simp: loop_body_def)

subsection \<open>Spans that the fragment passes over\<close>

lemma lazy_dots_then_skip:
  assumes "closing \<notin> set body" and "\<forall>c\<in>set body. \<not> is_line_terminator c"
  shows "lazy_dots_then closing (body @ closing # rest) k
     = (case k rest of
          Some y \<Rightarrow> Some y
        | None \<Rightarrow> if is_line_terminator closing then None else lazy_dots_then closing rest k)"
  using assms by (induction body) auto

lemma fragment_has_terminator:
  "\<exists>c\<in>set s. is_terminator c \<Longrightarrow> \<exists>t. fragment s = Some t"
proof (induction s)
  case Nil
  then show ?case by simp
next
  case (Cons c cs)
  show ?case
  proof (cases "is_terminator c")
    case True
    then show ?thesis by (simp add: fragment.simps [of "c # cs"])
  next
    case False
    with Cons.prems have "\<exists>c\<in>set cs. is_terminator c"
      by simp
    with Cons.IH obtain t where t: "fragment cs = Some t"
      by blast
    have "\<exists>y. fragment_item fragment (c # cs) = Some y"
      unfolding fragment_item_def list.case
      by (simp add: t split: option.split)
    with False show ?thesis
      by (simp add: fragment.simps [of "c # cs"])
  qed
qed

lemma fragment_skips_span:
  assumes delim: "(opening, closing) \<in> {(CHR ''('', CHR '')''), (CHR 0x22, CHR 0x22), (CHR 0x27, CHR 0x27)}"
    and body: "closing \<notin> set body" "\<forall>c\<in>set body. \<not> is_line_terminator c"
    and rest: "fragment rest = Some t"
  shows "fragment (opening # body @ closing # rest) = Some t"
proof -
  have l: "lazy_dots_then closing (body @ closing # rest) fragment = Some t"
    by (simp add: lazy_dots_then_skip [OF body] rest)
  from delim have "\<not> is_terminator opening"
    by (auto simp: is_terminator_def)
  then have "fragment (opening # body @ closing # rest)
      = fragment_item fragment (opening # body @ closing # rest)"
    by (simp add: fragment.simps [of "opening # body @ closing # rest"])
  also from delim l have "\<dots> = Some t"
    unfolding fragment_item_def list.case
    by (auto split: option.split)
  finally show ?thesis .
qed

section \<open>The states of a parse\<close>

definition fresh :: "CSSRangeParser \<Rightarrow> bool" where
  \<comment> \<open>the scanner fields as the field initialisers leave them\<close>
  "fresh this = (stack this = [] \<and> current this = None \<and> ignoreDeep this = 0)"

inductive reachable :: "CSSRangeParser \<Rightarrow> nat \<Rightarrow> CSSRangeParser \<times> LeafRange list \<Rightarrow> bool"
  for this0 :: CSSRangeParser where
  \<comment> \<open>\<open>reachable this0 i (this, rs)\<close>: \<open>parse\<close>, called on \<open>this0\<close>, is at the head of
      its loop with \<open>re.lastIndex = i\<close>, the object as \<open>this\<close> and \<open>ranges\<close> as \<open>rs\<close>\<close>
  initial: "reachable this0 0 (this0, [])"
| round: "reachable this0 i s \<Longrightarrow> re_exec (document this0) i = Some m \<Longrightarrow> loop_body m s = Some s'
          \<Longrightarrow> reachable this0 (lastIndex m) s'"

definition chain :: "CSSRangeParser \<Rightarrow> nat list" where
  \<comment> \<open>the open blocks, innermost first: the active block, then the stack\<close>
  "chain this = (case current this of None \<Rightarrow> [] | Some c \<Rightarrow> c # stack this)"

fun linked :: "LeafRange list \<Rightarrow> nat list \<Rightarrow> bool" where
  \<comment> \<open>each block of the list has the next one as its \<open>parent\<close>, the last one has none\<close>
  "linked rs [] = True"
| "linked rs [a] = (parent (rs ! a) = None)"
| "linked rs (a # b # bs) = (parent (rs ! a) = Some b \<and> linked rs (b # bs))"

definition refs_ok :: "CSSRangeParser \<times> LeafRange list \<Rightarrow> bool" where
  \<comment> \<open>every reference is to a block of \<open>ranges\<close>, and a \<open>parent\<close> is an older block\<close>
  "refs_ok s =
     (case s of (this, rs) \<Rightarrow>
        (\<forall>c. current this = Some c \<longrightarrow> c < length rs)
        \<and> (\<forall>p\<in>set (stack this). p < length rs)
        \<and> (\<forall>a<length rs. \<forall>p. parent (rs ! a) = Some p \<longrightarrow> p < a))"

definition chain_ok :: "CSSRangeParser \<times> LeafRange list \<Rightarrow> bool" where
  \<comment> \<open>with nesting, the \<open>parent\<close> links of the active block run down the stack\<close>
  "chain_ok s =
     (case s of (this, rs) \<Rightarrow>
        linked rs (chain this) \<and> (current this = None \<longrightarrow> stack this = []))"

lemma reachable_fields:
  "reachable this0 i s \<Longrightarrow>
     supportsNesting (fst s) = supportsNesting this0 \<and> languageId (fst s) = languageId this0
     \<and> document (fst s) = document this0 \<and> i \<le> length (document this0)"
proof (induction rule: reachable.induct)
  case initial
  show ?case by simp
next
  case (round i s m s')
  obtain this rs where s: "s = (this, rs)" by (cases s)
  obtain this' rs' where s': "s' = (this', rs')" by (cases s')
  from round.hyps(2) have li: "lastIndex m \<le> length (document this0)"
    using re_exec_bounds by blast
  show ?case
  proof (cases "group2 m = Some ''{'' \<and> group1 m \<noteq> None \<and> group1 m \<noteq> Some []")
    case True
    then obtain sel where "group2 m = Some ''{''" "group1 m = Some sel" "sel \<noteq> []"
      by auto
    from loop_body_opened [OF this round.hyps(3) [unfolded s s']] round.IH li show ?thesis
      by (auto simp: s s')
  next
    case no_open: False
    show ?thesis
    proof (cases "group2 m = Some ''}''")
      case True
      from loop_body_closed [OF this round.hyps(3) [unfolded s s']] round.IH li show ?thesis
        by (auto simp: s s')
    next
      case False
      from loop_body_skipped [OF this no_open round.hyps(3)] round.IH li show ?thesis
        by simp
    qed
  qed
qed

lemma close_block_length [simp]:
  "length (close_block e c rs) = length rs"
  by (simp add: close_block_def)

lemma close_block_parent [simp]:
  "parent (close_block e c rs ! a) = parent (rs ! a)"
  by (cases "c < length rs") (simp_all add: close_block_def nth_list_update list_update_beyond not_less)

lemma close_block_names [simp]:
  "names (close_block e c rs ! a) = names (rs ! a)"
  by (cases "c < length rs") (simp_all add: close_block_def nth_list_update list_update_beyond not_less)

lemma close_block_start [simp]:
  "start (close_block e c rs ! a) = start (rs ! a)"
  by (cases "c < length rs") (simp_all add: close_block_def nth_list_update list_update_beyond not_less)

lemma close_block_end:
  "c < length rs \<Longrightarrow> end' (close_block e c rs ! a) = (if a = c then e else end' (rs ! a))"
  by (simp add: close_block_def)

lemma reachable_refs_ok:
  "reachable this0 i s \<Longrightarrow> fresh this0 \<Longrightarrow> refs_ok s"
proof (induction rule: reachable.induct)
  case initial
  then show ?case by (simp add: refs_ok_def fresh_def)
next
  case (round i s m s')
  obtain this rs where s: "s = (this, rs)" by (cases s)
  obtain this' rs' where s': "s' = (this', rs')" by (cases s')
  from round have ok: "refs_ok (this, rs)"
    by (simp add: s)
  show ?case
  proof (cases "group2 m = Some ''{'' \<and> group1 m \<noteq> None \<and> group1 m \<noteq> Some []")
    case True
    then obtain sel where "group2 m = Some ''{''" "group1 m = Some sel" "sel \<noteq> []"
      by auto
    from loop_body_opened [OF this round.hyps(3) [unfolded s s']]
    obtain r where r: "rs' = rs @ [r]" "parent r = current this"
        "current this' = Some (length rs)"
        "stack this' = (case current this of
                          Some p \<Rightarrow> if supportsNesting this then p # stack this else stack this
                        | None \<Rightarrow> stack this)"
      by blast
    from ok r(4) have "\<forall>p\<in>set (stack this'). p < length rs'"
      by (auto simp: refs_ok_def r(1) less_Suc_eq split: option.splits if_splits)
    moreover from ok r(2) have "\<forall>a<length rs'. \<forall>p. parent (rs' ! a) = Some p \<longrightarrow> p < a"
      by (auto simp: refs_ok_def r(1) nth_append less_Suc_eq)
    ultimately show ?thesis
      by (simp add: refs_ok_def s' r(1,3))
  next
    case no_open: False
    show ?thesis
    proof (cases "group2 m = Some ''}''")
      case True
      from loop_body_closed [OF this round.hyps(3) [unfolded s s']] ok show ?thesis
        by (auto simp: refs_ok_def s' split: option.splits list.splits if_splits
            dest: list.set_sel(2))
    next
      case False
      from loop_body_skipped [OF this no_open round.hyps(3)] round show ?thesis
        by simp
    qed
  qed
qed

lemma linked_append:
  "\<forall>a\<in>set ch. a < length rs \<Longrightarrow> linked (rs @ [r]) ch = linked rs ch"
  by (induction rs ch rule: linked.induct) (auto simp: nth_append)

lemma linked_close_block [simp]:
  "linked (close_block e c rs) ch = linked rs ch"
  by (induction rs ch rule: linked.induct) auto

lemma linked_tl:
  "linked rs ch \<Longrightarrow> linked rs (tl ch)"
  by (induction rs ch rule: linked.induct) auto

lemma reachable_chain_ok:
  "reachable this0 i s \<Longrightarrow> fresh this0 \<Longrightarrow> supportsNesting this0 \<Longrightarrow> chain_ok s"
proof (induction rule: reachable.induct)
  case initial
  then show ?case by (simp add: chain_ok_def chain_def fresh_def)
next
  case (round i s m s')
  obtain this rs where s: "s = (this, rs)" by (cases s)
  obtain this' rs' where s': "s' = (this', rs')" by (cases s')
  from round have ok: "chain_ok (this, rs)"
    by (simp add: s)
  from round reachable_refs_ok have refs: "refs_ok (this, rs)"
    by (simp add: s)
  from round.hyps(1) round.prems(2) have nest: "supportsNesting this"
    using reachable_fields by (fastforce simp: s)
  from refs have below: "\<forall>a\<in>set (chain this). a < length rs"
    by (auto simp: refs_ok_def chain_def split: option.splits)
  show ?case
  proof (cases "group2 m = Some ''{'' \<and> group1 m \<noteq> None \<and> group1 m \<noteq> Some []")
    case True
    then obtain sel where "group2 m = Some ''{''" "group1 m = Some sel" "sel \<noteq> []"
      by auto
    from loop_body_opened [OF this round.hyps(3) [unfolded s s']]
    obtain r where r: "rs' = rs @ [r]" "parent r = current this"
        "current this' = Some (length rs)"
        "stack this' = (case current this of
                          Some p \<Rightarrow> if supportsNesting this then p # stack this else stack this
                        | None \<Rightarrow> stack this)"
      by blast
    from r(4) nest ok have st: "stack this' = chain this"
      by (auto simp: chain_def chain_ok_def split: option.splits)
    from ok below have "linked (rs @ [r]) (chain this)"
      by (simp add: linked_append chain_ok_def)
    with r(2) have "linked (rs @ [r]) (length rs # chain this)"
      by (cases "chain this") (auto simp: chain_def split: option.splits)
    with st r show ?thesis
      by (simp add: chain_ok_def s' chain_def)
  next
    case no_open: False
    show ?thesis
    proof (cases "group2 m = Some ''}''")
      case True
      note c = loop_body_closed [OF this round.hyps(3) [unfolded s s']]
      show ?thesis
      proof (cases "current this")
        case None
        with c ok nest show ?thesis
          by (simp add: chain_ok_def s' chain_def)
      next
        case (Some a)
        with c nest have ch: "chain this' = stack this" "rs' = close_block (int (lastIndex m)) a rs"
          by (auto simp: chain_def split: list.splits)
        from ok Some have "linked rs (stack this)"
          using linked_tl [of rs "chain this"] by (simp add: chain_ok_def chain_def)
        with ch c nest Some show ?thesis
          by (auto simp: chain_ok_def s' split: list.splits)
      qed
    next
      case False
      from loop_body_skipped [OF this no_open round.hyps(3)] round show ?thesis
        by simp
    qed
  qed
qed

section \<open>The ancestor that nesting resolution picks\<close>

partial_function (option) nearest_selector_ancestor ::
    "LeafRange list \<Rightarrow> nat option \<Rightarrow> nat option option" where
  \<comment> \<open>the ancestor as the specification words it: starting at the active parent and
      walking up the \<open>parent\<close> links, the first block whose names include one with
      \<open>isSelector = true\<close>\<close>
  "nearest_selector_ancestor rs p =
     (case p of
        None \<Rightarrow> Some None
      | Some a \<Rightarrow>
          if list_ex isSelector (names (rs ! a)) then Some (Some a)
          else nearest_selector_ancestor rs (parent (rs ! a)))"

declare nearest_selector_ancestor.simps [code]

definition stops_at :: "LeafRange list \<Rightarrow> nat \<Rightarrow> bool" where
  \<comment> \<open>the test that ends the loop of \<open>getClosestSelectorTypeFullNames\<close>\<close>
  "stops_at rs a =
     (1 < length (names (rs ! a)) \<or> (names (rs ! a) \<noteq> [] \<and> isSelector (hd (names (rs ! a)))))"

definition normal :: "LeafName list \<Rightarrow> bool" where
  \<comment> \<open>a list of several names has a selector among them\<close>
  "normal ns = (if 1 < length ns then list_ex isSelector ns else True)"

definition names_ok :: "CSSRangeParser \<times> LeafRange list \<Rightarrow> bool" where
  \<comment> \<open>the open blocks below the innermost \<open>ignoreDeep\<close> ones have normal names\<close>
  "names_ok s =
     (case s of (this, rs) \<Rightarrow>
        \<forall>a\<in>set (drop (ignoreDeep this) (chain this)). normal (names (rs ! a)))"

lemma chain_head:
  "(case chain this of [] \<Rightarrow> None | a # as \<Rightarrow> Some a) = current this"
  by (simp add: chain_def split: option.split)

lemma closest_block_linked:
  "linked rs ch \<Longrightarrow>
     closest_block rs (case ch of [] \<Rightarrow> None | a # as \<Rightarrow> Some a) = Some (find (stops_at rs) ch)"
proof (induction rs ch rule: linked.induct)
  case (1 rs)
  show ?case by (subst closest_block.simps) simp
next
  case (2 rs a)
  then have "closest_block rs (parent (rs ! a)) = Some None"
    by (subst closest_block.simps) simp
  then show ?case
    by (subst closest_block.simps) (simp add: stops_at_def)
next
  case (3 rs a b bs)
  then have "closest_block rs (parent (rs ! a)) = Some (find (stops_at rs) (b # bs))"
    by simp
  then show ?case
    by (subst closest_block.simps) (simp add: stops_at_def)
qed

lemma nearest_selector_ancestor_linked:
  "linked rs ch \<Longrightarrow>
     nearest_selector_ancestor rs (case ch of [] \<Rightarrow> None | a # as \<Rightarrow> Some a)
       = Some (find (\<lambda>a. list_ex isSelector (names (rs ! a))) ch)"
proof (induction rs ch rule: linked.induct)
  case (1 rs)
  show ?case by (subst nearest_selector_ancestor.simps) simp
next
  case (2 rs a)
  then have "nearest_selector_ancestor rs (parent (rs ! a)) = Some None"
    by (subst nearest_selector_ancestor.simps) simp
  then show ?case
    by (subst nearest_selector_ancestor.simps) simp
next
  case (3 rs a b bs)
  then have "nearest_selector_ancestor rs (parent (rs ! a))
      = Some (find (\<lambda>a. list_ex isSelector (names (rs ! a))) (b # bs))"
    by simp
  then show ?case
    by (subst nearest_selector_ancestor.simps) simp
qed

lemma normal_stops:
  assumes "normal ns"
  shows "(1 < length ns \<or> (ns \<noteq> [] \<and> isSelector (hd ns))) = list_ex isSelector ns"
proof (cases ns)
  case Nil
  then show ?thesis by simp
next
  case (Cons n ns')
  with assms show ?thesis
    by (cases ns') (auto simp: normal_def)
qed

lemma stops_at_normal:
  "normal (names (rs ! a)) \<Longrightarrow> stops_at rs a = list_ex isSelector (names (rs ! a))"
  unfolding stops_at_def by (rule normal_stops)

lemma find_stops_normal:
  "\<forall>a\<in>set ch. normal (names (rs ! a)) \<Longrightarrow>
     find (stops_at rs) ch = find (\<lambda>a. list_ex isSelector (names (rs ! a))) ch"
  by (induction ch) (simp_all add: stops_at_normal)

lemma names_loop_isSelector:
  "\<forall>n\<in>set (names_loop b selectors i). isSelector n = b"
proof (induction b selectors i rule: names_loop.induct)
  case (1 b selectors i)
  show ?case
  proof (cases "names_exec selectors i")
    case None
    then show ?thesis by (simp add: names_loop.simps [of b selectors i])
  next
    case (Some y)
    obtain g li where y: "y = (g, li)" by (cases y)
    from "1.IH" [OF Some y [symmetric]] have "\<forall>n\<in>set (names_loop b selectors li). isSelector n = b"
      by simp
    with Some y show ?thesis
      by (auto simp add: names_loop.simps [of b selectors i] Let_def)
  qed
qed

lemma set_tl_subset:
  "x \<in> set (tl xs) \<Longrightarrow> x \<in> set xs"
  by (cases xs) auto

lemma parseToNames_tail:
  "ignoreDeep this = 0 \<Longrightarrow> \<forall>n\<in>set (tl (parseToNames this selector)). isSelector n"
  using names_loop_isSelector [of True]
  by (auto simp: parseToNames_def split: option.splits dest: set_tl_subset)

lemma combine_loop_null [simp]:
  "combine_loop None ns li = ns"
  by (induction ns arbitrary: li) auto

lemma combine_loop_no_selector:
  "\<forall>n\<in>set ns. \<not> isSelector n \<Longrightarrow> combine_loop parentFullNames ns li = ns"
  by (induction ns arbitrary: li) auto

lemma combine_loop_keeps_selector:
  "ps \<noteq> [] \<Longrightarrow> list_ex isSelector ns \<Longrightarrow> list_ex isSelector (combine_loop (Some ps) ns li)"
proof (induction ns arbitrary: li)
  case Nil
  then show ?case by simp
next
  case (Cons n ns)
  show ?case
  proof (cases "isSelector n")
    case True
    obtain b li' where t: "re_test (full n) li = (b, li')"
      by (cases "re_test (full n) li")
    from Cons.prems(1) obtain p ps' where ps: "ps = p # ps'"
      by (cases ps) auto
    from True t ps show ?thesis
      by (cases b) simp_all
  next
    case False
    with Cons show ?thesis by simp
  qed
qed

lemma combine_loop_normal:
  assumes "ps \<noteq> []" and "\<forall>n\<in>set (tl ns). isSelector n"
  shows "normal (combine_loop (Some ps) ns li)"
proof (cases "list_ex isSelector ns")
  case True
  with assms(1) have "list_ex isSelector (combine_loop (Some ps) ns li)"
    by (rule combine_loop_keeps_selector)
  then show ?thesis by (simp add: normal_def)
next
  case False
  then have no: "\<forall>n\<in>set ns. \<not> isSelector n"
    by (simp add: list_ex_iff)
  with assms(2) have "tl ns = []"
    by (cases ns) (auto intro: ccontr simp: neq_Nil_conv)
  then have "length ns \<le> 1"
    by (cases ns) auto
  with no show ?thesis
    by (simp add: combine_loop_no_selector normal_def)
qed

lemma getClosestSelectorTypeFullNames_linked:
  assumes "linked rs (chain this)"
  shows "getClosestSelectorTypeFullNames this rs
     = Some (map_option (\<lambda>a. map full (filter isSelector (names (rs ! a))))
               (find (stops_at rs) (chain this)))"
proof -
  from assms have "closest_block rs (current this) = Some (find (stops_at rs) (chain this))"
    using closest_block_linked [of rs "chain this"] by (simp add: chain_head)
  then show ?thesis
    by (simp add: getClosestSelectorTypeFullNames_def split: option.split)
qed

lemma chain_count_ignored [simp]:
  "chain (count_ignored selector this) = chain this"
  by (simp add: chain_def split: option.split)

lemma leaf_names_total:
  assumes "supportsNesting this \<Longrightarrow> linked rs (chain this)"
  shows "\<exists>ns. leaf_names this rs selector = Some ns"
proof (cases "supportsNesting this \<and> ignoreDeep this = 0 \<and> current this \<noteq> None")
  case True
  with assms have "linked rs (chain this)"
    by simp
  then show ?thesis
    by (simp add: leaf_names_def combineNestingNames_def getClosestSelectorTypeFullNames_linked)
next
  case False
  then show ?thesis
    by (auto simp: leaf_names_def)
qed

lemma tail_normal:
  "\<forall>n\<in>set (tl ns). isSelector n \<Longrightarrow> normal ns"
  by (cases ns; cases "tl ns") (auto simp: normal_def list_ex_iff)

lemma leaf_names_normal:
  assumes linked: "linked rs (chain this)"
    and normal: "\<forall>a\<in>set (chain this). normal (names (rs ! a))"
    and zero: "ignoreDeep this = 0"
    and ns: "leaf_names this rs selector = Some ns"
  shows "normal ns"
proof -
  let ?pn = "parseToNames this selector"
  from zero have tail: "\<forall>n\<in>set (tl ?pn). isSelector n"
    by (rule parseToNames_tail)
  show ?thesis
  proof (cases "supportsNesting this \<and> current this \<noteq> None")
    case False
    with ns zero have "ns = ?pn"
      by (auto simp: leaf_names_def)
    with tail show ?thesis
      by (simp add: tail_normal)
  next
    case True
    with ns zero linked have comb: "ns = combine_loop
        (map_option (\<lambda>a. map full (filter isSelector (names (rs ! a))))
           (find (stops_at rs) (chain this))) ?pn 0"
      by (auto simp: leaf_names_def combineNestingNames_def
          getClosestSelectorTypeFullNames_linked)
    show ?thesis
    proof (cases "find (stops_at rs) (chain this)")
      case None
      with comb tail show ?thesis
        by (simp add: tail_normal)
    next
      case (Some a)
      then have a: "a \<in> set (chain this)" "stops_at rs a"
        by (auto simp: find_Some_iff)
      with normal have "list_ex isSelector (names (rs ! a))"
        by (simp add: stops_at_normal)
      then have "map full (filter isSelector (names (rs ! a))) \<noteq> []"
        by (auto simp: list_ex_iff filter_empty_conv)
      with tail have "normal (combine_loop
          (Some (map full (filter isSelector (names (rs ! a))))) ?pn 0)"
        by (intro combine_loop_normal)
      with comb Some show ?thesis
        by simp
    qed
  qed
qed

lemma reachable_names_ok:
  "reachable this0 i s \<Longrightarrow> fresh this0 \<Longrightarrow> supportsNesting this0 \<Longrightarrow> names_ok s"
proof (induction rule: reachable.induct)
  case initial
  then show ?case by (simp add: names_ok_def chain_def fresh_def)
next
  case (round i s m s')
  obtain this rs where s: "s = (this, rs)" by (cases s)
  obtain this' rs' where s': "s' = (this', rs')" by (cases s')
  from round have ok: "names_ok (this, rs)"
    by (simp add: s)
  from round reachable_refs_ok have refs: "refs_ok (this, rs)"
    by (simp add: s)
  from round reachable_chain_ok have ch: "chain_ok (this, rs)"
    by (simp add: s)
  from round.hyps(1) round.prems(2) have nest: "supportsNesting this"
    using reachable_fields by (fastforce simp: s)
  from refs have below: "\<forall>a\<in>set (chain this). a < length rs"
    by (auto simp: refs_ok_def chain_def split: option.splits)
  show ?case
  proof (cases "group2 m = Some ''{'' \<and> group1 m \<noteq> None \<and> group1 m \<noteq> Some []")
    case True
    then obtain sel where "group2 m = Some ''{''" "group1 m = Some sel" "sel \<noteq> []"
      by auto
    from loop_body_opened [OF this round.hyps(3) [unfolded s s']]
    obtain r where r: "rs' = rs @ [r]"
        "leaf_names (count_ignored (collapse_spaces (trimRight sel)) this) rs
           (collapse_spaces (trimRight sel)) = Some (names r)"
        "current this' = Some (length rs)"
        "stack this' = (case current this of
                          Some p \<Rightarrow> if supportsNesting this then p # stack this else stack this
                        | None \<Rightarrow> stack this)"
        "ignoreDeep this' = ignoreDeep (count_ignored (collapse_spaces (trimRight sel)) this)"
      by blast
    let ?this1 = "count_ignored (collapse_spaces (trimRight sel)) this"
    from r(4) nest ch have st: "stack this' = chain this"
      by (auto simp: chain_def chain_ok_def split: option.splits)
    with r(3) have ch': "chain this' = length rs # chain this"
      by (simp add: chain_def)
    from below have old: "\<forall>a\<in>set (chain this). names (rs' ! a) = names (rs ! a)"
      by (simp add: r(1) nth_append)
    show ?thesis
    proof (cases "ignoreDeep ?this1")
      case 0
      then have zero: "ignoreDeep this = 0" and same: "?this1 = this"
        by (auto simp: count_ignored_def split: if_splits)
      from ok zero have all: "\<forall>a\<in>set (chain this). normal (names (rs ! a))"
        by (simp add: names_ok_def)
      from ch have "linked rs (chain this)"
        by (simp add: chain_ok_def)
      from leaf_names_normal [OF this all zero r(2) [unfolded same]]
      have "normal (names r)" .
      with all old 0 show ?thesis
        by (simp add: names_ok_def s' ch' r(5) r(1))
    next
      case (Suc n)
      then have n: "n = ignoreDeep this"
        by (auto simp: count_ignored_def split: if_splits)
      from old have "\<forall>a\<in>set (drop n (chain this)). names (rs' ! a) = names (rs ! a)"
        by (auto dest: in_set_dropD)
      with ok n Suc show ?thesis
        by (simp add: names_ok_def s' ch' r(5))
    qed
  next
    case no_open: False
    show ?thesis
    proof (cases "group2 m = Some ''}''")
      case True
      note c = loop_body_closed [OF this round.hyps(3) [unfolded s s']]
      have sub: "set (drop (ignoreDeep this - 1) (tl (chain this)))
          \<subseteq> set (drop (ignoreDeep this) (chain this))"
        by (cases "ignoreDeep this"; cases "chain this") (auto dest: in_set_dropD)
      from c nest ch have "chain this' = tl (chain this)"
        by (auto simp: chain_def chain_ok_def split: option.splits list.splits)
      with c ok sub show ?thesis
        by (auto simp: names_ok_def s' split: option.splits)
    next
      case False
      from loop_body_skipped [OF this no_open round.hyps(3)] round show ?thesis
        by simp
    qed
  qed
qed

lemma loop_body_total:
  assumes "reachable this0 i s" and "fresh this0"
  shows "\<exists>s'. loop_body m s = Some s'"
proof -
  obtain this rs where s: "s = (this, rs)" by (cases s)
  have "supportsNesting this \<Longrightarrow> linked rs (chain this)"
  proof -
    assume "supportsNesting this"
    with assms(1) have "supportsNesting this0"
      using reachable_fields by (fastforce simp: s)
    with assms have "chain_ok (this, rs)"
      using reachable_chain_ok by (simp add: s)
    then show ?thesis by (simp add: chain_ok_def)
  qed
  then have "\<exists>ns. leaf_names (count_ignored selector this) rs selector = Some ns" for selector
    by (intro leaf_names_total) simp
  then have new: "\<exists>r this2. newLeafRange (count_ignored selector this) rs selector st
      = Some (r, this2)" for selector st
    by (auto simp: newLeafRange_def split: option.split)
  show ?thesis
  proof (cases "group2 m = Some ''{'' \<and> group1 m \<noteq> None \<and> group1 m \<noteq> Some []")
    case True
    let ?selector = "collapse_spaces (trimRight (the (group1 m)))"
    from new obtain r this2 where "newLeafRange (count_ignored ?selector this) rs ?selector
        (int (lastIndex m) - int (length ?selector) - 1) = Some (r, this2)"
      by blast
    with True have "loop_body m (this, rs) = Some (this2\<lparr>current := Some (length rs)\<rparr>, rs @ [r])"
      by (simp add: loop_body_def Let_def)
    then show ?thesis by (simp add: s)
  next
    case False
    then show ?thesis
      by (auto simp: s loop_body_def Let_def split: option.split)
  qed
qed

lemma parse_loop_reachable:
  assumes "fresh this0"
  shows "reachable this0 i s \<Longrightarrow>
     \<exists>j s'. parse_loop (document this0) i s = Some s' \<and> reachable this0 j s'"
proof (induction "document this0" i s rule: parse_loop.induct)
  case (1 i s)
  show ?case
  proof (cases "re_exec (document this0) i")
    case None
    with "1.prems" show ?thesis
      by (auto simp: parse_loop.simps [of "document this0" i s])
  next
    case (Some m)
    from loop_body_total [OF "1.prems" assms] obtain s1 where s1: "loop_body m s = Some s1"
      by blast
    with "1.prems" Some have "reachable this0 (lastIndex m) s1"
      by (intro reachable.round)
    with "1.hyps" [OF Some s1] Some s1 show ?thesis
      by (simp add: parse_loop.simps [of "document this0" i s])
  qed
qed

section \<open>The spans of nested blocks\<close>

definition spans_ok :: "nat \<Rightarrow> CSSRangeParser \<times> LeafRange list \<Rightarrow> bool" where
  \<comment> \<open>with nesting and \<open>re.lastIndex = i\<close>: an open block has no \<open>end\<close> yet; every block
      starts before \<open>i\<close>; a closed block ends after its start and by \<open>i\<close>; a block starts
      no earlier than its parent, and once closed it ends no later than its parent,
      unless the parent is still open\<close>
  "spans_ok i s =
     (case s of (this, rs) \<Rightarrow>
        (\<forall>a\<in>set (chain this). end' (rs ! a) = 0)
        \<and> (\<forall>a<length rs. 0 \<le> start (rs ! a) \<and> start (rs ! a) < int i)
        \<and> (\<forall>a<length rs. a \<notin> set (chain this) \<longrightarrow>
              start (rs ! a) < end' (rs ! a) \<and> end' (rs ! a) \<le> int i)
        \<and> (\<forall>a<length rs. \<forall>p. parent (rs ! a) = Some p \<longrightarrow>
              start (rs ! p) \<le> start (rs ! a)
              \<and> (a \<notin> set (chain this) \<longrightarrow>
                   p \<in> set (chain this) \<or> end' (rs ! a) \<le> end' (rs ! p))))"

lemma collapse_spaces_length:
  "length (collapse_spaces s) \<le> length s"
proof (induction s rule: collapse_spaces.induct)
  case 1
  show ?case by simp
next
  case (2 c cs)
  have "length (dropWhile is_space cs) \<le> length cs"
    by (rule length_dropWhile_le)
  with 2 show ?case
    by (cases "is_space c") auto
qed

lemma trimRight_length:
  "length (trimRight s) \<le> length s"
  using length_dropWhile_le [of is_space "rev s"] by (simp add: trimRight_def)

lemma normalized_length:
  "length (collapse_spaces (trimRight s)) \<le> length s"
  using collapse_spaces_length [of "trimRight s"] trimRight_length [of s] by simp

lemma opened_start_bounds:
  assumes "re_exec doc i = Some m" and "group1 m = Some sel"
  shows "int i \<le> int (lastIndex m) - int (length (collapse_spaces (trimRight sel))) - 1"
proof -
  from re_exec_groups [OF assms] obtain p where "i \<le> p" "lastIndex m = p + length sel + 1"
    by blast
  with normalized_length [of sel] show ?thesis
    by simp
qed

lemma linked_below_head:
  assumes "\<forall>a<length rs. \<forall>p. parent (rs ! a) = Some p \<longrightarrow> p < a"
  shows "linked rs (a # bs) \<Longrightarrow> a < length rs \<Longrightarrow> \<forall>x\<in>set bs. x < a"
proof (induction bs arbitrary: a)
  case Nil
  show ?case by simp
next
  case (Cons b bs)
  from Cons.prems have b: "parent (rs ! a) = Some b" "linked rs (b # bs)"
    by simp_all
  with assms Cons.prems(2) have ba: "b < a"
    by blast
  with Cons.prems(2) have "b < length rs"
    by simp
  with Cons.IH b(2) have "\<forall>x\<in>set bs. x < b"
    by blast
  with ba show ?case
    by auto
qed

lemma current_not_on_stack:
  assumes "refs_ok (this, rs)" and "chain_ok (this, rs)" and "current this = Some c"
  shows "c \<notin> set (stack this)" and "c < length rs"
    and "parent (rs ! c) = (case stack this of [] \<Rightarrow> None | p # ps \<Rightarrow> Some p)"
proof -
  from assms(1,3) show c: "c < length rs"
    by (simp add: refs_ok_def)
  from assms(2,3) have l: "linked rs (c # stack this)"
    by (simp add: chain_ok_def chain_def)
  from assms(1) have "\<forall>a<length rs. \<forall>p. parent (rs ! a) = Some p \<longrightarrow> p < a"
    by (simp add: refs_ok_def)
  from linked_below_head [OF this l c] show "c \<notin> set (stack this)"
    by auto
  from l show "parent (rs ! c) = (case stack this of [] \<Rightarrow> None | p # ps \<Rightarrow> Some p)"
    by (cases "stack this") simp_all
qed

lemma spans_ok_mono:
  "i \<le> j \<Longrightarrow> spans_ok i s \<Longrightarrow> spans_ok j s"
  by (cases s) (fastforce simp: spans_ok_def)

lemma spans_ok_opened:
  assumes ok: "spans_ok i (this, rs)" and refs: "refs_ok (this, rs)"
    and r: "rs' = rs @ [r]" "end' r = 0" "parent r = current this"
      "int i \<le> start r" "start r < int j"
    and ch: "chain this' = length rs # chain this"
    and ij: "i \<le> j"
  shows "spans_ok j (this', rs')"
proof -
  from refs have below: "\<forall>a\<in>set (chain this). a < length rs"
    by (auto simp: refs_ok_def chain_def split: option.splits)
  from refs have older: "\<forall>a<length rs. \<forall>p. parent (rs ! a) = Some p \<longrightarrow> p < a"
    by (simp add: refs_ok_def)
  from refs have cur: "\<forall>c. current this = Some c \<longrightarrow> c < length rs"
    by (simp add: refs_ok_def)
  from ok have o1: "\<forall>a\<in>set (chain this). end' (rs ! a) = 0"
    and o2: "\<forall>a<length rs. 0 \<le> start (rs ! a) \<and> start (rs ! a) < int i"
    and o3: "\<forall>a<length rs. a \<notin> set (chain this) \<longrightarrow>
          start (rs ! a) < end' (rs ! a) \<and> end' (rs ! a) \<le> int i"
    and o4: "\<forall>a<length rs. \<forall>p. parent (rs ! a) = Some p \<longrightarrow>
          start (rs ! p) \<le> start (rs ! a)
          \<and> (a \<notin> set (chain this) \<longrightarrow> p \<in> set (chain this) \<or> end' (rs ! a) \<le> end' (rs ! p))"
    by (simp_all add: spans_ok_def)
  have n1: "\<forall>a\<in>set (chain this'). end' (rs' ! a) = 0"
    using o1 below r(1,2) by (simp add: ch nth_append)
  have n2: "\<forall>a<length rs'. 0 \<le> start (rs' ! a) \<and> start (rs' ! a) < int j"
  proof (intro allI impI)
    fix a assume "a < length rs'"
    then consider "a < length rs" | "a = length rs"
      by (auto simp: r(1) less_Suc_eq)
    then show "0 \<le> start (rs' ! a) \<and> start (rs' ! a) < int j"
    proof cases
      case 1
      with o2 ij show ?thesis by (force simp: r(1) nth_append)
    next
      case 2
      with r show ?thesis by simp
    qed
  qed
  have n3: "\<forall>a<length rs'. a \<notin> set (chain this') \<longrightarrow>
        start (rs' ! a) < end' (rs' ! a) \<and> end' (rs' ! a) \<le> int j"
  proof (intro allI impI)
    fix a assume "a < length rs'" "a \<notin> set (chain this')"
    then have "a < length rs" "a \<notin> set (chain this)"
      by (auto simp: r(1) ch)
    with o3 ij show "start (rs' ! a) < end' (rs' ! a) \<and> end' (rs' ! a) \<le> int j"
      by (force simp: r(1) nth_append)
  qed
  have n4: "\<forall>a<length rs'. \<forall>p. parent (rs' ! a) = Some p \<longrightarrow>
        start (rs' ! p) \<le> start (rs' ! a)
        \<and> (a \<notin> set (chain this') \<longrightarrow>
              p \<in> set (chain this') \<or> end' (rs' ! a) \<le> end' (rs' ! p))"
  proof (intro allI impI)
    fix a p assume a: "a < length rs'" and p: "parent (rs' ! a) = Some p"
    from a consider "a < length rs" | "a = length rs"
      by (auto simp: r(1) less_Suc_eq)
    then show "start (rs' ! p) \<le> start (rs' ! a)
        \<and> (a \<notin> set (chain this') \<longrightarrow>
              p \<in> set (chain this') \<or> end' (rs' ! a) \<le> end' (rs' ! p))"
    proof cases
      case 1
      with p have p': "parent (rs ! a) = Some p"
        by (simp add: r(1) nth_append)
      with older 1 have "p < a"
        by blast
      with 1 have pl: "p < length rs"
        by simp
      from o4 1 p' have "start (rs ! p) \<le> start (rs ! a)
          \<and> (a \<notin> set (chain this) \<longrightarrow> p \<in> set (chain this) \<or> end' (rs ! a) \<le> end' (rs ! p))"
        by blast
      with 1 pl show ?thesis
        by (auto simp: r(1) nth_append ch)
    next
      case 2
      with p r(3) have c: "current this = Some p"
        by (simp add: r(1))
      with cur have pl: "p < length rs"
        by blast
      with o2 have "start (rs ! p) < int i"
        by blast
      with r(4) 2 pl show ?thesis
        by (simp add: r(1) nth_append ch)
    qed
  qed
  from n1 n2 n3 n4 show ?thesis
    by (simp add: spans_ok_def)
qed

lemma spans_ok_closed:
  assumes ok: "spans_ok i (this, rs)" and refs: "refs_ok (this, rs)"
    and chok: "chain_ok (this, rs)"
    and c: "current this = Some c"
    and r: "rs' = close_block (int j) c rs"
    and ch: "chain this' = stack this"
    and ij: "i \<le> j"
  shows "spans_ok j (this', rs')"
proof -
  note cur = current_not_on_stack [OF refs chok c]
  from c have chain: "chain this = c # stack this"
    by (simp add: chain_def)
  from ok have o1: "\<forall>a\<in>set (chain this). end' (rs ! a) = 0"
    and o2: "\<forall>a<length rs. 0 \<le> start (rs ! a) \<and> start (rs ! a) < int i"
    and o3: "\<forall>a<length rs. a \<notin> set (chain this) \<longrightarrow>
          start (rs ! a) < end' (rs ! a) \<and> end' (rs ! a) \<le> int i"
    and o4: "\<forall>a<length rs. \<forall>p. parent (rs ! a) = Some p \<longrightarrow>
          start (rs ! p) \<le> start (rs ! a)
          \<and> (a \<notin> set (chain this) \<longrightarrow> p \<in> set (chain this) \<or> end' (rs ! a) \<le> end' (rs ! p))"
    by (simp_all add: spans_ok_def)
  have e: "end' (close_block (int j) c rs ! a) = (if a = c then int j else end' (rs ! a))" for a
    by (simp add: close_block_end cur(2))
  have n1: "\<forall>a\<in>set (chain this'). end' (rs' ! a) = 0"
    using o1 cur(1) by (auto simp: ch chain e r)
  have n2: "\<forall>a<length rs'. 0 \<le> start (rs' ! a) \<and> start (rs' ! a) < int j"
    using o2 ij by (force simp: r)
  have n3: "\<forall>a<length rs'. a \<notin> set (chain this') \<longrightarrow>
        start (rs' ! a) < end' (rs' ! a) \<and> end' (rs' ! a) \<le> int j"
  proof (intro allI impI)
    fix a assume a: "a < length rs'" "a \<notin> set (chain this')"
    show "start (rs' ! a) < end' (rs' ! a) \<and> end' (rs' ! a) \<le> int j"
    proof (cases "a = c")
      case True
      from o2 cur(2) have "start (rs ! c) < int i"
        by blast
      with ij True show ?thesis
        by (simp add: e r)
    next
      case False
      with a have "a < length rs" "a \<notin> set (chain this)"
        by (auto simp: r ch chain)
      with o3 ij False show ?thesis
        by (force simp: e r)
    qed
  qed
  have n4: "\<forall>a<length rs'. \<forall>p. parent (rs' ! a) = Some p \<longrightarrow>
        start (rs' ! p) \<le> start (rs' ! a)
        \<and> (a \<notin> set (chain this') \<longrightarrow>
              p \<in> set (chain this') \<or> end' (rs' ! a) \<le> end' (rs' ! p))"
  proof (intro allI impI)
    fix a p assume a: "a < length rs'" and p: "parent (rs' ! a) = Some p"
    then have al: "a < length rs" and p': "parent (rs ! a) = Some p"
      by (simp_all add: r)
    from o4 al p' have st: "start (rs ! p) \<le> start (rs ! a)"
      and en: "a \<notin> set (chain this) \<longrightarrow> p \<in> set (chain this) \<or> end' (rs ! a) \<le> end' (rs ! p)"
      by blast+
    have "p \<in> set (chain this') \<or> end' (rs' ! a) \<le> end' (rs' ! p)" if out: "a \<notin> set (chain this')"
    proof (cases "a = c")
      case True
      with p' cur(3) show ?thesis
        by (cases "stack this") (simp_all add: ch)
    next
      case False
      with out have closed: "a \<notin> set (chain this)"
        by (simp add: ch chain)
      with o3 al have "end' (rs ! a) \<le> int i"
        by blast
      with ij have "end' (rs ! a) \<le> int j"
        by simp
      with en closed False show ?thesis
        by (auto simp: e r ch chain)
    qed
    with st show "start (rs' ! p) \<le> start (rs' ! a)
        \<and> (a \<notin> set (chain this') \<longrightarrow>
              p \<in> set (chain this') \<or> end' (rs' ! a) \<le> end' (rs' ! p))"
      by (simp add: r)
  qed
  from n1 n2 n3 n4 show ?thesis
    by (simp add: spans_ok_def)
qed

lemma reachable_spans_ok:
  "reachable this0 i s \<Longrightarrow> fresh this0 \<Longrightarrow> supportsNesting this0 \<Longrightarrow> spans_ok i s"
proof (induction rule: reachable.induct)
  case initial
  then show ?case by (simp add: spans_ok_def chain_def fresh_def)
next
  case (round i s m s')
  obtain this rs where s: "s = (this, rs)" by (cases s)
  obtain this' rs' where s': "s' = (this', rs')" by (cases s')
  from round have ok: "spans_ok i (this, rs)"
    by (simp add: s)
  from round reachable_refs_ok have refs: "refs_ok (this, rs)"
    by (simp add: s)
  from round reachable_chain_ok have ch: "chain_ok (this, rs)"
    by (simp add: s)
  from round.hyps(1) round.prems(2) have nest: "supportsNesting this"
    using reachable_fields by (fastforce simp: s)
  from round.hyps(2) have ij: "i < lastIndex m"
    using re_exec_bounds by blast
  show ?case
  proof (cases "group2 m = Some ''{'' \<and> group1 m \<noteq> None \<and> group1 m \<noteq> Some []")
    case True
    then obtain sel where sel: "group2 m = Some ''{''" "group1 m = Some sel" "sel \<noteq> []"
      by auto
    from loop_body_opened [OF this round.hyps(3) [unfolded s s']]
    obtain r where r: "rs' = rs @ [r]"
        "start r = int (lastIndex m) - int (length (collapse_spaces (trimRight sel))) - 1"
        "end' r = 0" "parent r = current this"
        "current this' = Some (length rs)"
        "stack this' = (case current this of
                          Some p \<Rightarrow> if supportsNesting this then p # stack this else stack this
                        | None \<Rightarrow> stack this)"
      by blast
    from r(6) nest ch have "stack this' = chain this"
      by (auto simp: chain_def chain_ok_def split: option.splits)
    with r(5) have ch': "chain this' = length rs # chain this"
      by (simp add: chain_def)
    from opened_start_bounds [OF round.hyps(2) sel(2)] r(2) have lo: "int i \<le> start r"
      by simp
    from r(2) have hi: "start r < int (lastIndex m)"
      by simp
    from ij have "i \<le> lastIndex m"
      by simp
    from spans_ok_opened [OF ok refs r(1,3,4) lo hi ch' this] show ?thesis
      by (simp add: s')
  next
    case no_open: False
    show ?thesis
    proof (cases "group2 m = Some ''}''")
      case True
      note c = loop_body_closed [OF this round.hyps(3) [unfolded s s']]
      show ?thesis
      proof (cases "current this")
        case None
        with c nest have "rs' = rs" "chain this' = chain this"
          by (simp_all add: chain_def)
        with ok have "spans_ok i (this', rs')"
          by (simp add: spans_ok_def)
        with ij show ?thesis
          using spans_ok_mono [of i "lastIndex m"] by (simp add: s')
      next
        case (Some a)
        with c nest have ch': "chain this' = stack this"
          and rs': "rs' = close_block (int (lastIndex m)) a rs"
          by (auto simp: chain_def split: list.splits)
        from ij have "i \<le> lastIndex m"
          by simp
        from spans_ok_closed [OF ok refs ch Some rs' ch' this] show ?thesis
          by (simp add: s')
      qed
    next
      case False
      from loop_body_skipped [OF this no_open round.hyps(3)] round ij show ?thesis
        using spans_ok_mono [of i "lastIndex m" s] by simp
    qed
  qed
qed

lemma linked_parent_in_chain:
  "linked rs ch \<Longrightarrow> a \<in> set ch \<Longrightarrow> parent (rs ! a) = Some p \<Longrightarrow> p \<in> set ch"
  by (induction rs ch rule: linked.induct) auto

lemma contained_if_closed:
  assumes ok: "spans_ok j (this, rs)" and l: "linked rs (chain this)"
    and older: "\<forall>a<length rs. \<forall>p. parent (rs ! a) = Some p \<longrightarrow> p < a"
    and a: "a < length rs" "parent (rs ! a) = Some p" "end' (rs ! p) \<noteq> 0"
  shows "p < a \<and> start (rs ! p) \<le> start (rs ! a) \<and> start (rs ! a) < end' (rs ! a)
      \<and> end' (rs ! a) \<le> end' (rs ! p)"
proof -
  from ok have o1: "\<forall>a\<in>set (chain this). end' (rs ! a) = 0"
    and o3: "\<forall>a<length rs. a \<notin> set (chain this) \<longrightarrow>
          start (rs ! a) < end' (rs ! a) \<and> end' (rs ! a) \<le> int j"
    and o4: "\<forall>a<length rs. \<forall>p. parent (rs ! a) = Some p \<longrightarrow>
          start (rs ! p) \<le> start (rs ! a)
          \<and> (a \<notin> set (chain this) \<longrightarrow> p \<in> set (chain this) \<or> end' (rs ! a) \<le> end' (rs ! p))"
    by (simp_all add: spans_ok_def)
  from o1 a(3) have p: "p \<notin> set (chain this)"
    by blast
  with l a(2) have out: "a \<notin> set (chain this)"
    using linked_parent_in_chain by blast
  from older a(1,2) have "p < a"
    by blast
  moreover from o4 a(1,2) out p
  have "start (rs ! p) \<le> start (rs ! a) \<and> end' (rs ! a) \<le> end' (rs ! p)"
    by blast
  moreover from o3 a(1) out have "start (rs ! a) < end' (rs ! a)"
    by blast
  ultimately show ?thesis by simp
qed

lemma scan_reachable:
  assumes "fresh this0"
  shows "\<exists>j this rs. reachable this0 j (this, rs)
      \<and> scan this0 = Some (close_at_end (document this0) (this, rs), this)"
proof -
  have "reachable this0 0 (this0, [])"
    by (rule reachable.initial)
  from parse_loop_reachable [OF assms this]
  obtain j s' where s': "parse_loop (document this0) 0 (this0, []) = Some s'" "reachable this0 j s'"
    by blast
  obtain this rs where "s' = (this, rs)"
    by (cases s')
  with s' have "reachable this0 j (this, rs)
      \<and> scan this0 = Some (close_at_end (document this0) (this, rs), this)"
    by (simp add: scan_def)
  then show ?thesis by blast
qed

lemma scan_contained:
  assumes "fresh this0" and "supportsNesting this0" and "scan this0 = Some (rs, this')"
    and a: "a < length rs" "parent (rs ! a) = Some p" "end' (rs ! p) \<noteq> 0"
  shows "p < a \<and> start (rs ! p) \<le> start (rs ! a) \<and> start (rs ! a) < end' (rs ! a)
      \<and> end' (rs ! a) \<le> end' (rs ! p)"
proof -
  from scan_reachable [OF assms(1)] assms(3) obtain j this rs0 where
    reach: "reachable this0 j (this, rs0)"
    and rs: "rs = close_at_end (document this0) (this, rs0)"
    by auto
  note ok = reachable_spans_ok [OF reach assms(1,2)]
  note refs = reachable_refs_ok [OF reach assms(1)]
  note ch = reachable_chain_ok [OF reach assms(1,2)]
  from reach have j: "j \<le> length (document this0)"
    using reachable_fields by blast
  from refs have older: "\<forall>a<length rs0. \<forall>p. parent (rs0 ! a) = Some p \<longrightarrow> p < a"
    by (simp add: refs_ok_def)
  show ?thesis
  proof (cases "current this")
    case None
    with rs have "rs = rs0"
      by (simp add: close_at_end_def)
    with contained_if_closed [OF ok _ older, of a p] ch a show ?thesis
      by (simp add: chain_ok_def)
  next
    case (Some c)
    from ok Some have "end' (rs0 ! c) = 0"
      by (simp add: spans_ok_def chain_def)
    with rs Some have rs': "rs = close_block (int (length (document this0))) c rs0"
      by (simp add: close_at_end_def)
    let ?t = "this\<lparr>current := (case stack this of [] \<Rightarrow> None | p # ps \<Rightarrow> Some p),
        stack := tl (stack this)\<rparr>"
    have ch': "chain ?t = stack this"
      by (cases "stack this") (simp_all add: chain_def)
    from spans_ok_closed [OF ok refs ch Some rs' ch' j]
    have ok': "spans_ok (length (document this0)) (?t, rs)" .
    from ch Some have "linked rs0 (stack this)"
      using linked_tl [of rs0 "chain this"] by (simp add: chain_ok_def chain_def)
    then have l: "linked rs (chain ?t)"
      by (simp add: ch' rs')
    from older have older': "\<forall>a<length rs. \<forall>p. parent (rs ! a) = Some p \<longrightarrow> p < a"
      by (simp add: rs')
    from contained_if_closed [OF ok' l older' a] show ?thesis .
  qed
qed

lemma parse_scan:
  "parse positionAt this = map_option (\<lambda>(rs, this'). (formatToNamedRanges positionAt rs, this')) (scan this)"
  by (simp add: parse_def split: option.split)

lemma formatToNamedRanges_range:
  "a < length rs \<Longrightarrow>
     range' (formatToNamedRanges positionAt rs ! a) = (positionAt (start (rs ! a)), positionAt (end' (rs ! a)))"
  by (simp add: formatToNamedRanges_def)

lemma formatToNamedRanges_length [simp]:
  "length (formatToNamedRanges positionAt rs) = length rs"
  by (simp add: formatToNamedRanges_def)

section \<open>Observing a parse\<close>

definition parsed_names :: "string \<Rightarrow> string \<Rightarrow> FullMainName list list option" where
  \<comment> \<open>the \<open>names\<close> of the ranges that \<open>new CSSRangeParser(document).parse()\<close> returns, for
      a document with this language and text\<close>
  "parsed_names languageId0 text =
     map_option (\<lambda>r. map names' (fst r))
       (parse (\<lambda>offset. offset) (new_CSSRangeParser languageId0 text))"

definition scanned_spans :: "string \<Rightarrow> string \<Rightarrow> (int \<times> int) list option" where
  \<comment> \<open>the \<open>start\<close> and \<open>end\<close> offsets of the blocks of that call, in the order of \<open>ranges\<close>\<close>
  "scanned_spans languageId0 text =
     map_option (\<lambda>r. map (\<lambda>b. (start b, end' b)) (fst r))
       (scan (new_CSSRangeParser languageId0 text))"

section \<open>The claims\<close>

text \<open>
  Claim C2, as stated: parsing \<open>.a { color: red; }\<close> gives one range with the names
  \<open>[{full: ".a", main: "a"}]\<close>, the main identifier being the word without its prefix.
  The code returns the token with its prefix, so the stated result is not the one
  returned.
\<close>

theorem plain_rule_main_without_prefix_refuted:
  "parsed_names ''css'' ''.a { color: red; }'' \<noteq> Some [[\<lparr>full' = ''.a'', main = ''a''\<rparr>]]"
  by code_simp

text \<open>
  Claim C2, amended: parsing \<open>.a { color: red; }\<close> as CSS gives exactly one range, with
  the names \<open>[{full: ".a", main: ".a"}]\<close>, and parsing \<open>.a { .b { color: blue; } }\<close> in a
  nesting-capable dialect gives an inner range with the names
  \<open>[{full: ".a .b", main: ".b"}]\<close>: the main identifier is the word token together with
  its \<open>.\<close> or \<open>#\<close> prefix.
\<close>

theorem plain_rule_main_keeps_prefix:
  "parsed_names ''css'' ''.a { color: red; }'' = Some [[\<lparr>full' = ''.a'', main = ''.a''\<rparr>]]
   \<and> parsed_names ''scss'' ''.a { .b { color: blue; } }''
       = Some [[\<lparr>full' = ''.a'', main = ''.a''\<rparr>], [\<lparr>full' = ''.a .b'', main = ''.b''\<rparr>]]
   \<and> parsed_names ''less'' ''.a { .b { color: blue; } }''
       = Some [[\<lparr>full' = ''.a'', main = ''.a''\<rparr>], [\<lparr>full' = ''.a .b'', main = ''.b''\<rparr>]]
   \<and> getMainSelector ''#a'' = ''#a''"
  by code_simp

text \<open>
  Claim C3, at the input \<open> .a{.b{\<close> (seven characters, both blocks left open): only the
  innermost block is closed at the end of the text; the outer block keeps its \<open>end\<close> of 0,
  which is not the end of the text and lies before its \<open>start\<close> of 1.
\<close>

theorem open_ancestor_keeps_unset_end:
  "scanned_spans ''scss'' '' .a{.b{'' = Some [(1, 0), (4, 7)]
   \<and> scanned_spans ''css'' '' .a{.b{'' = Some [(1, 0), (4, 7)]
   \<and> length '' .a{.b{'' = 7"
  by code_simp

text \<open>
  Claim C6: parsing \<open>.a { &:hover { color: red; } }\<close> in a nesting-capable dialect
  returns exactly two ranges, the inner one with the names
  \<open>[{full: ".a:hover", main: ""}]\<close>; the rightmost descendant of the raw selector is
  \<open>&:hover\<close>, a reference followed by a character that is not a word character.
\<close>

theorem nested_parent_reference_has_no_main:
  "parsed_names ''scss'' ''.a { &:hover { color: red; } }''
     = Some [[\<lparr>full' = ''.a'', main = ''.a''\<rparr>], [\<lparr>full' = ''.a:hover'', main = ''''\<rparr>]]
   \<and> parsed_names ''less'' ''.a { &:hover { color: red; } }''
     = Some [[\<lparr>full' = ''.a'', main = ''.a''\<rparr>], [\<lparr>full' = ''.a:hover'', main = ''''\<rparr>]]
   \<and> getRightMostDescendant ''&:hover'' = ''&:hover''
   \<and> hasSingleReferenceInRightMostDescendant ''&:hover''"
  by code_simp

text \<open>
  Claim C9, at the input \<open>.a{}}\<close> in CSS: after the first \<open>}\<close> the closed block is still
  the active one (\<open>current\<close> is reset only by the \<open>pop\<close> of the nesting dialects), so the
  second \<open>}\<close> moves its \<open>end\<close> from 4 to 5. In SCSS the same text leaves the \<open>end\<close> at 4.
\<close>

theorem later_brace_moves_closed_end:
  "scanned_spans ''css'' ''.a{}'' = Some [(0, 4)]
   \<and> map_option (\<lambda>r. current (snd r)) (scan (new_CSSRangeParser ''css'' ''.a{}'')) = Some (Some 0)
   \<and> scanned_spans ''css'' ''.a{}}'' = Some [(0, 5)]
   \<and> scanned_spans ''scss'' ''.a{}}'' = Some [(0, 4)]"
  by code_simp

text \<open>
  Claim C4, as stated: the span of a block lies within the span of the block that was
  active when it was opened. In CSS, \<open>.a{.b{}}\<close> opens \<open>.b\<close> while \<open>.a\<close> is active
  (its \<open>parent\<close> is block 0), yet \<open>.a\<close> is never closed: its span is \<open>(0, 0)\<close> and that
  of \<open>.b\<close> is \<open>(3, 8)\<close>.
\<close>

theorem nested_span_outside_ancestor_in_css:
  "scanned_spans ''css'' ''.a{.b{}}'' = Some [(0, 0), (3, 8)]
   \<and> map_option (\<lambda>r. map parent (fst r)) (scan (new_CSSRangeParser ''css'' ''.a{.b{}}''))
       = Some [None, Some 0]"
  by code_simp

text \<open>
  Claim C4, amended: in a nesting-capable dialect, for every input and every pair of
  output ranges where the block of one was opened while the block of the other was the
  active block (its \<open>parent\<close>), if the ancestor has been closed (its end offset is set),
  the nested range starts no earlier than the ancestor, ends after its own start, and
  ends no later than the ancestor. The parse returns for every text.
\<close>

theorem nested_span_within_closed_ancestor:
  assumes "fresh this" and "supportsNesting this"
  shows "\<exists>rs out this'.
      scan this = Some (rs, this') \<and> parse (\<lambda>offset. offset) this = Some (out, this')
      \<and> length out = length rs
      \<and> (\<forall>a<length rs. \<forall>p. parent (rs ! a) = Some p \<longrightarrow> snd (range' (out ! p)) \<noteq> 0 \<longrightarrow>
            p < a
            \<and> fst (range' (out ! p)) \<le> fst (range' (out ! a))
            \<and> fst (range' (out ! a)) < snd (range' (out ! a))
            \<and> snd (range' (out ! a)) \<le> snd (range' (out ! p)))"
proof -
  from scan_reachable [OF assms(1)] obtain rs this' where scan: "scan this = Some (rs, this')"
    by blast
  let ?out = "formatToNamedRanges (\<lambda>offset. offset) rs"
  have "p < a \<and> fst (range' (?out ! p)) \<le> fst (range' (?out ! a))
      \<and> fst (range' (?out ! a)) < snd (range' (?out ! a))
      \<and> snd (range' (?out ! a)) \<le> snd (range' (?out ! p))"
    if a: "a < length rs" "parent (rs ! a) = Some p" "snd (range' (?out ! p)) \<noteq> 0" for a p
  proof -
    from scan_reachable [OF assms(1)] scan obtain j this1 rs0 where
      "reachable this j (this1, rs0)" "rs = close_at_end (document this) (this1, rs0)"
      by auto
    with a(1,2) have "p < a"
      using reachable_refs_ok [OF _ assms(1), of j "(this1, rs0)"]
      by (auto simp: refs_ok_def close_at_end_def split: option.splits if_splits)
    with a(1) have p: "p < length rs"
      by simp
    with a(3) have "end' (rs ! p) \<noteq> 0"
      by (simp add: formatToNamedRanges_range)
    from scan_contained [OF assms scan a(1,2) this] a(1) p show ?thesis
      by (simp add: formatToNamedRanges_range)
  qed
  with scan show ?thesis
    by (simp add: parse_scan)
qed

theorem nested_span_within_closed_ancestor_witness:
  "fresh (new_CSSRangeParser ''scss'' ''.a{.b{}}'')
   \<and> supportsNesting (new_CSSRangeParser ''scss'' ''.a{.b{}}'')
   \<and> map_option (\<lambda>r. map parent (fst r)) (scan (new_CSSRangeParser ''scss'' ''.a{.b{}}''))
       = Some [None, Some 0]
   \<and> map_option (\<lambda>r. map range' (fst r))
        (parse (\<lambda>offset. offset) (new_CSSRangeParser ''scss'' ''.a{.b{}}''))
       = Some [(0, 8), (3, 7)]
   \<and> (\<exists>rs out this'.
        scan (new_CSSRangeParser ''scss'' ''.a{.b{}}'') = Some (rs, this')
        \<and> parse (\<lambda>offset. offset) (new_CSSRangeParser ''scss'' ''.a{.b{}}'') = Some (out, this')
        \<and> parent (rs ! 1) = Some 0 \<and> snd (range' (out ! 0)) \<noteq> 0
        \<and> fst (range' (out ! 0)) \<le> fst (range' (out ! 1))
        \<and> fst (range' (out ! 1)) < snd (range' (out ! 1))
        \<and> snd (range' (out ! 1)) \<le> snd (range' (out ! 0)))"
proof -
  let ?p = "new_CSSRangeParser ''scss'' ''.a{.b{}}''"
  have h1: "fresh ?p" by code_simp
  have h2: "supportsNesting ?p" by code_simp
  have e1: "map_option (\<lambda>r. map parent (fst r)) (scan ?p) = Some [None, Some 0]" by code_simp
  have e2: "map_option (\<lambda>r. map range' (fst r)) (parse (\<lambda>offset. offset) ?p) = Some [(0, 8), (3, 7)]"
    by code_simp
  from nested_span_within_closed_ancestor [OF h1 h2] obtain rs out this' where
    r: "scan ?p = Some (rs, this')" "parse (\<lambda>offset. offset) ?p = Some (out, this')"
      "length out = length rs"
      "\<forall>a<length rs. \<forall>p. parent (rs ! a) = Some p \<longrightarrow> snd (range' (out ! p)) \<noteq> 0 \<longrightarrow>
            p < a
            \<and> fst (range' (out ! p)) \<le> fst (range' (out ! a))
            \<and> fst (range' (out ! a)) < snd (range' (out ! a))
            \<and> snd (range' (out ! a)) \<le> snd (range' (out ! p))"
    by blast
  from e1 r(1) have par: "map parent rs = [None, Some 0]"
    by simp
  then have len: "length rs = 2"
    by (metis length_map length_Cons list.size(3) numeral_2_eq_2)
  from par have p1: "parent (rs ! 1) = Some 0"
    by (metis len nth_map one_less_numeral_iff semiring_norm(76) nth_Cons_0 nth_Cons_Suc One_nat_def)
  from e2 r(2) have "map range' out = [(0, 8), (3, 7)]"
    by simp
  with r(3) len have nz: "snd (range' (out ! 0)) \<noteq> 0"
    by (metis nth_map nth_Cons_0 snd_conv zero_less_numeral zero_neq_numeral)
  from r(4) len p1 nz have "fst (range' (out ! 0)) \<le> fst (range' (out ! 1))
      \<and> fst (range' (out ! 1)) < snd (range' (out ! 1))
      \<and> snd (range' (out ! 1)) \<le> snd (range' (out ! 0))"
    by (metis one_less_numeral_iff semiring_norm(76))
  with h1 h2 e1 e2 r(1,2) p1 nz show ?thesis
    by blast
qed

text \<open>
  Claim C5: whenever nesting resolution runs in a parse (nesting is supported and the
  deep-ignore counter is 0), the parent it combines with is the nearest ancestor, from
  the active block up the \<open>parent\<close> links, whose names include one with
  \<open>isSelector = true\<close>; when there is no such ancestor the child names come back
  unchanged.
\<close>

theorem nesting_picks_nearest_selector_ancestor:
  assumes "fresh this0" and "supportsNesting this0" and "reachable this0 i (this, rs)"
    and "ignoreDeep this = 0"
  shows "\<exists>res.
      nearest_selector_ancestor rs (current this) = Some res
      \<and> getClosestSelectorTypeFullNames this rs
          = Some (map_option (\<lambda>a. map full (filter isSelector (names (rs ! a)))) res)
      \<and> (res = None \<longrightarrow> combineNestingNames this rs childNames = Some childNames)"
proof -
  from reachable_chain_ok [OF assms(3,1,2)] have l: "linked rs (chain this)"
    by (simp add: chain_ok_def)
  from reachable_names_ok [OF assms(3,1,2)] assms(4)
  have "\<forall>a\<in>set (chain this). normal (names (rs ! a))"
    by (simp add: names_ok_def)
  then have same: "find (stops_at rs) (chain this)
      = find (\<lambda>a. list_ex isSelector (names (rs ! a))) (chain this)"
    by (rule find_stops_normal)
  let ?res = "find (\<lambda>a. list_ex isSelector (names (rs ! a))) (chain this)"
  from l have 1: "nearest_selector_ancestor rs (current this) = Some ?res"
    using nearest_selector_ancestor_linked [of rs "chain this"] by (simp add: chain_head)
  from l same have 2: "getClosestSelectorTypeFullNames this rs
      = Some (map_option (\<lambda>a. map full (filter isSelector (names (rs ! a)))) ?res)"
    by (simp add: getClosestSelectorTypeFullNames_linked)
  from 2 have 3: "?res = None \<longrightarrow> combineNestingNames this rs childNames = Some childNames"
    by (simp add: combineNestingNames_def)
  show ?thesis
    by (rule exI [of _ ?res]) (intro conjI 1 2 3)
qed

theorem nesting_picks_nearest_selector_ancestor_witness:
  "fresh (new_CSSRangeParser ''scss'' ''.a{@media x{.b{'')
   \<and> supportsNesting (new_CSSRangeParser ''scss'' ''.a{@media x{.b{'')
   \<and> reachable (new_CSSRangeParser ''scss'' ''.a{@media x{.b{'') 12
        ((new_CSSRangeParser ''scss'' ''.a{@media x{.b{'')\<lparr>stack := [0], current := Some 1\<rparr>,
         [\<lparr>names = [\<lparr>raw = ''.a'', full = ''.a'', isSelector = True\<rparr>],
             start = 0, end' = 0, parent = None\<rparr>,
          \<lparr>names = [\<lparr>raw = ''@media x'', full = ''@media x'', isSelector = False\<rparr>],
             start = 3, end' = 0, parent = Some 0\<rparr>])
   \<and> getClosestSelectorTypeFullNames
        ((new_CSSRangeParser ''scss'' ''.a{@media x{.b{'')\<lparr>stack := [0], current := Some 1\<rparr>)
        [\<lparr>names = [\<lparr>raw = ''.a'', full = ''.a'', isSelector = True\<rparr>],
            start = 0, end' = 0, parent = None\<rparr>,
         \<lparr>names = [\<lparr>raw = ''@media x'', full = ''@media x'', isSelector = False\<rparr>],
            start = 3, end' = 0, parent = Some 0\<rparr>]
       = Some (Some [''.a''])"
proof -
  let ?p = "new_CSSRangeParser ''scss'' ''.a{@media x{.b{''"
  let ?b0 = "\<lparr>names = [\<lparr>raw = ''.a'', full = ''.a'', isSelector = True\<rparr>],
      start = 0, end' = 0, parent = None\<rparr>"
  let ?b1 = "\<lparr>names = [\<lparr>raw = ''@media x'', full = ''@media x'', isSelector = False\<rparr>],
      start = 3, end' = 0, parent = Some 0\<rparr>"
  let ?m1 = "\<lparr>group1 = Some ''.a'', group2 = Some ''{'', lastIndex = 3\<rparr>"
  let ?m2 = "\<lparr>group1 = Some ''@media x'', group2 = Some ''{'', lastIndex = 12\<rparr>"
  let ?t1 = "?p\<lparr>current := Some 0\<rparr>"
  let ?t2 = "?p\<lparr>stack := [0], current := Some 1\<rparr>"
  have h1: "fresh ?p" by code_simp
  have h2: "supportsNesting ?p" by code_simp
  have e1: "re_exec (document ?p) 0 = Some ?m1" by code_simp
  have b1: "loop_body ?m1 (?p, []) = Some (?t1, [?b0])" by code_simp
  have e2: "re_exec (document ?p) 3 = Some ?m2" by code_simp
  have b2: "loop_body ?m2 (?t1, [?b0]) = Some (?t2, [?b0, ?b1])" by code_simp
  have "reachable ?p (lastIndex ?m1) (?t1, [?b0])"
    using reachable.initial e1 b1 by (rule reachable.round)
  then have "reachable ?p 3 (?t1, [?b0])"
    by simp
  then have "reachable ?p (lastIndex ?m2) (?t2, [?b0, ?b1])"
    using e2 b2 by (rule reachable.round)
  then have h3: "reachable ?p 12 (?t2, [?b0, ?b1])"
    by simp
  have h4: "ignoreDeep ?t2 = 0" by code_simp
  have n: "nearest_selector_ancestor [?b0, ?b1] (current ?t2) = Some (Some 0)" by code_simp
  from nesting_picks_nearest_selector_ancestor [OF h1 h2 h3 h4, of "[]"] n
  have "getClosestSelectorTypeFullNames ?t2 [?b0, ?b1] = Some (Some [''.a''])"
    by simp
  with h1 h2 h3 show ?thesis
    by blast
qed

text \<open>
  Claim C1, as stated: the \<open>start\<close> of a block opened by \<open>{\<close> is the position of that
  \<open>{\<close>. For \<open>.a{}\<close> the match ends at 3, so the \<open>{\<close> is at 2, and the block starts at 0.
\<close>

theorem block_start_is_not_brace_position:
  "re_exec ''.a{}'' 0 = Some \<lparr>group1 = Some ''.a'', group2 = Some ''{'', lastIndex = 3\<rparr>
   \<and> ''.a{}'' ! 2 = CHR ''{''
   \<and> scanned_spans ''css'' ''.a{}'' = Some [(0, 4)]"
  by code_simp

text \<open>
  Claim C1, amended: for every input text, when a block is opened by a \<open>{\<close> terminator
  with a non-empty preceding fragment that trimming and white-space collapsing leave
  unchanged, the \<open>start\<close> of the created block is the offset of the first character
  of the fragment: the position of the matched \<open>{\<close> minus the length of the fragment,
  a position before the \<open>{\<close>.
\<close>

theorem block_start_is_fragment_start:
  assumes "re_exec doc i = Some m" and "group2 m = Some ''{''" and "group1 m = Some sel"
    and "sel \<noteq> []" and "collapse_spaces (trimRight sel) = sel"
    and "loop_body m (this, rs) = Some (this', rs')"
  shows "\<exists>r. rs' = rs @ [r] \<and> current this' = Some (length rs)
      \<and> doc ! (lastIndex m - 1) = CHR ''{''
      \<and> start r = int (lastIndex m - 1) - int (length sel)
      \<and> 0 \<le> start r \<and> start r < int (lastIndex m - 1)
      \<and> take (length sel) (drop (nat (start r)) doc) = sel"
proof -
  from re_exec_groups [OF assms(1,3)] assms(2) obtain p where
    p: "lastIndex m = p + length sel + 1" "take (length sel) (drop p doc) = sel"
      "doc ! (lastIndex m - 1) = CHR ''{''"
    by auto
  from loop_body_opened [OF assms(2,3,4,6)] assms(5) obtain r where
    r: "rs' = rs @ [r]" "current this' = Some (length rs)"
      "start r = int (lastIndex m) - int (length sel) - 1"
    by auto
  from r(3) p(1) have s: "start r = int p"
    by simp
  from assms(4) have "0 < length sel"
    by simp
  with s p r(1,2) have "rs' = rs @ [r] \<and> current this' = Some (length rs)
      \<and> doc ! (lastIndex m - 1) = CHR ''{''
      \<and> start r = int (lastIndex m - 1) - int (length sel)
      \<and> 0 \<le> start r \<and> start r < int (lastIndex m - 1)
      \<and> take (length sel) (drop (nat (start r)) doc) = sel"
    by simp
  then show ?thesis ..
qed

theorem block_start_is_fragment_start_witness:
  "re_exec ''x;.a{}'' 2 = Some \<lparr>group1 = Some ''.a'', group2 = Some ''{'', lastIndex = 5\<rparr>
   \<and> collapse_spaces (trimRight ''.a'') = ''.a''
   \<and> loop_body \<lparr>group1 = Some ''.a'', group2 = Some ''{'', lastIndex = 5\<rparr>
        (new_CSSRangeParser ''css'' ''x;.a{}'', [])
       = Some ((new_CSSRangeParser ''css'' ''x;.a{}'')\<lparr>current := Some 0\<rparr>,
               [\<lparr>names = [\<lparr>raw = ''.a'', full = ''.a'', isSelector = True\<rparr>],
                   start = 2, end' = 0, parent = None\<rparr>])
   \<and> ''x;.a{}'' ! 4 = CHR ''{''
   \<and> take 2 (drop 2 ''x;.a{}'') = ''.a''"
proof -
  let ?m = "\<lparr>group1 = Some ''.a'', group2 = Some ''{'', lastIndex = 5\<rparr>"
  let ?p = "new_CSSRangeParser ''css'' ''x;.a{}''"
  let ?b = "\<lparr>names = [\<lparr>raw = ''.a'', full = ''.a'', isSelector = True\<rparr>],
      start = 2, end' = 0, parent = None\<rparr>"
  have h1: "re_exec ''x;.a{}'' 2 = Some ?m" by code_simp
  have h2: "group2 ?m = Some ''{''" by simp
  have h3: "group1 ?m = Some ''.a''" by simp
  have h4: "''.a'' \<noteq> []" by simp
  have h5: "collapse_spaces (trimRight ''.a'') = ''.a''" by code_simp
  have h6: "loop_body ?m (?p, []) = Some (?p\<lparr>current := Some 0\<rparr>, [?b])" by code_simp
  from block_start_is_fragment_start [OF h1 h2 h3 h4 h5 h6]
  have "''x;.a{}'' ! 4 = CHR ''{'' \<and> take 2 (drop 2 ''x;.a{}'') = ''.a''"
    by simp
  with h1 h5 h6 show ?thesis
    by simp
qed

text \<open>
  Claim C7, as stated: a \<open>;\<close>, \<open>{\<close> or \<open>}\<close> inside a parenthesized span never ends the
  fragment. In the text \<open>(;)\<close> nothing follows the span, the expression backtracks, the
  \<open>(\<close> is read as an ordinary character and the \<open>;\<close> inside the span ends the fragment.
\<close>

theorem terminator_inside_final_span:
  "re_exec ''(;)'' 0 = Some \<lparr>group1 = Some ''('', group2 = Some '';'', lastIndex = 2\<rparr>"
  by code_simp

text \<open>
  Claim C7, amended: a parenthesized, double-quoted or single-quoted span that begins
  where an item of the fragment begins, holds no line terminator and no closing
  delimiter before its end, and is followed somewhere in the text by a \<open>;\<close>, \<open>{\<close> or
  \<open>}\<close>, is opaque content of the fragment: the fragment ends at a terminator that lies
  after the span, the one a scan from behind the span finds.
\<close>

theorem span_before_terminator_is_opaque:
  assumes "(opening, closing)
      \<in> {(CHR ''('', CHR '')''), (CHR 0x22, CHR 0x22), (CHR 0x27, CHR 0x27)}"
    and "closing \<notin> set body" and "\<forall>c\<in>set body. \<not> is_line_terminator c"
    and "\<exists>c\<in>set rest. is_terminator c"
  shows "\<exists>pre t. rest = pre @ t \<and> t \<noteq> [] \<and> is_terminator (hd t)
      \<and> fragment rest = Some t
      \<and> fragment (opening # body @ closing # rest) = Some t"
proof -
  from assms(4) obtain t where t: "fragment rest = Some t"
    using fragment_has_terminator by blast
  then obtain pre where pre: "rest = pre @ t" "t \<noteq> []" "is_terminator (hd t)"
    using fragment_suffix by blast
  from fragment_skips_span [OF assms(1,2,3) t] t pre show ?thesis
    by blast
qed

theorem span_before_terminator_is_opaque_witness:
  "(CHR ''('', CHR '')'') \<in> {(CHR ''('', CHR '')''), (CHR 0x22, CHR 0x22), (CHR 0x27, CHR 0x27)}
   \<and> CHR '')'' \<notin> set '';{}''
   \<and> fragment '' {x'' = Some ''{x''
   \<and> fragment (CHR ''('' # '';{}'' @ CHR '')'' # '' {x'') = Some ''{x''
   \<and> re_exec ''a(;{}) {x'' 0
       = Some \<lparr>group1 = Some ''a(;{}) '', group2 = Some ''{'', lastIndex = 8\<rparr>"
proof -
  have h1: "(CHR ''('', CHR '')'')
      \<in> {(CHR ''('', CHR '')''), (CHR 0x22, CHR 0x22), (CHR 0x27, CHR 0x27)}"
    by simp
  have h2: "CHR '')'' \<notin> set '';{}''" by simp
  have h3: "\<forall>c\<in>set '';{}''. \<not> is_line_terminator c"
    by (simp add: is_line_terminator_def)
  have h4: "\<exists>c\<in>set '' {x''. is_terminator c"
    by (simp add: is_terminator_def)
  have e: "fragment '' {x'' = Some ''{x''" by code_simp
  have x: "re_exec ''a(;{}) {x'' 0
      = Some \<lparr>group1 = Some ''a(;{}) '', group2 = Some ''{'', lastIndex = 8\<rparr>"
    by code_simp
  from span_before_terminator_is_opaque [OF h1 h2 h3 h4] e
  have "fragment (CHR ''('' # '';{}'' @ CHR '')'' # '' {x'') = Some ''{x''"
    by auto
  with h1 h2 e x show ?thesis
    by simp
qed

subsection \<open>Fields that a parse does not read\<close>

lemma parseToNames_supportedLanguages [simp]:
  "parseToNames (this\<lparr>supportedLanguages := x\<rparr>) selector = parseToNames this selector"
  by (simp add: parseToNames_def cong: option.case_cong if_cong)

lemma leaf_names_supportedLanguages [simp]:
  "leaf_names (this\<lparr>supportedLanguages := x\<rparr>) rs selector = leaf_names this rs selector"
  by (simp add: leaf_names_def combineNestingNames_def getClosestSelectorTypeFullNames_def
      cong: if_cong)

lemma count_ignored_supportedLanguages:
  "count_ignored selector (this\<lparr>supportedLanguages := x\<rparr>)
     = (count_ignored selector this)\<lparr>supportedLanguages := x\<rparr>"
  by (simp add: count_ignored_def)

lemma newLeafRange_supportedLanguages:
  "newLeafRange (this\<lparr>supportedLanguages := x\<rparr>) rs selector st
     = map_option (\<lambda>(r, t). (r, t\<lparr>supportedLanguages := x\<rparr>)) (newLeafRange this rs selector st)"
  by (simp add: newLeafRange_def split: option.split)

lemma loop_body_supportedLanguages:
  "loop_body m (this\<lparr>supportedLanguages := x\<rparr>, rs)
     = map_option (\<lambda>(t, rs'). (t\<lparr>supportedLanguages := x\<rparr>, rs')) (loop_body m (this, rs))"
  by (simp add: loop_body_def Let_def count_ignored_supportedLanguages
      newLeafRange_supportedLanguages split: option.split list.split)

lemma parse_loop_supportedLanguages:
  "parse_loop doc i (fst s\<lparr>supportedLanguages := x\<rparr>, snd s)
     = map_option (\<lambda>(t, rs'). (t\<lparr>supportedLanguages := x\<rparr>, rs')) (parse_loop doc i s)"
proof (induction doc i s rule: parse_loop.induct)
  case (1 doc i s)
  obtain this rs where s: "s = (this, rs)" by (cases s)
  show ?case
  proof (cases "re_exec doc i")
    case None
    then show ?thesis
      by (simp add: parse_loop.simps [of doc i] s)
  next
    case (Some m)
    show ?thesis
    proof (cases "loop_body m s")
      case None
      with Some show ?thesis
        by (simp add: parse_loop.simps [of doc i] s loop_body_supportedLanguages)
    next
      case s1: (Some s1)
      from "1.IH" [OF Some s1] Some s1 show ?thesis
        by (cases s1) (simp add: parse_loop.simps [of doc i] s loop_body_supportedLanguages)
    qed
  qed
qed

lemma scan_supportedLanguages:
  "map_option fst (scan (this\<lparr>supportedLanguages := x\<rparr>)) = map_option fst (scan this)"
proof -
  have "parse_loop (document this) 0 (this\<lparr>supportedLanguages := x\<rparr>, [])
      = map_option (\<lambda>(t, rs'). (t\<lparr>supportedLanguages := x\<rparr>, rs'))
          (parse_loop (document this) 0 (this, []))"
    using parse_loop_supportedLanguages [where doc = "document this" and i = 0
        and s = "(this, [])" and x = x] by simp
  then show ?thesis
    by (auto simp: scan_def close_at_end_def split: option.splits)
qed

text \<open>
  Claim C8: two invocations of \<open>parse\<close>, on objects with the same text, language
  and nesting capability and with the stack, the active block and the deep-ignore counter
  in their initial condition, return the same sequence of ranges.
\<close>

theorem parse_depends_on_text_and_dialect:
  assumes "document p = document q" and "languageId p = languageId q"
    and "supportsNesting p = supportsNesting q" and "fresh p" and "fresh q"
  shows "map_option fst (parse positionAt p) = map_option fst (parse positionAt q)"
proof -
  from assms have "q = p\<lparr>supportedLanguages := supportedLanguages q\<rparr>"
    by (simp add: fresh_def)
  then have "map_option fst (scan q) = map_option fst (scan p)"
    using scan_supportedLanguages [where this = p and x = "supportedLanguages q"] by simp
  then show ?thesis
    by (cases "scan p"; cases "scan q") (auto simp: parse_def)
qed

theorem parse_depends_on_text_and_dialect_witness:
  "fresh (new_CSSRangeParser ''scss'' ''.a{.b{}}'')
   \<and> fresh ((new_CSSRangeParser ''scss'' ''.a{.b{}}'')\<lparr>supportedLanguages := []\<rparr>)
   \<and> map_option fst (parse (\<lambda>offset. offset)
         ((new_CSSRangeParser ''scss'' ''.a{.b{}}'')\<lparr>supportedLanguages := []\<rparr>))
       = Some [\<lparr>names' = [\<lparr>full' = ''.a'', main = ''.a''\<rparr>], range' = (0, 8)\<rparr>,
               \<lparr>names' = [\<lparr>full' = ''.a .b'', main = ''.b''\<rparr>], range' = (3, 7)\<rparr>]"
proof -
  let ?p = "new_CSSRangeParser ''scss'' ''.a{.b{}}''"
  let ?q = "?p\<lparr>supportedLanguages := []\<rparr>"
  have h1: "document ?p = document ?q" by simp
  have h2: "languageId ?p = languageId ?q" by simp
  have h3: "supportsNesting ?p = supportsNesting ?q" by simp
  have h4: "fresh ?p" by code_simp
  have h5: "fresh ?q" by code_simp
  have e: "map_option fst (parse (\<lambda>offset. offset) ?p)
      = Some [\<lparr>names' = [\<lparr>full' = ''.a'', main = ''.a''\<rparr>], range' = (0, 8)\<rparr>,
              \<lparr>names' = [\<lparr>full' = ''.a .b'', main = ''.b''\<rparr>], range' = (3, 7)\<rparr>]"
    by code_simp
  from parse_depends_on_text_and_dialect [OF h1 h2 h3 h4 h5, of "\<lambda>offset. offset"] e
  have "map_option fst (parse (\<lambda>offset. offset) ?q)
      = Some [\<lparr>names' = [\<lparr>full' = ''.a'', main = ''.a''\<rparr>], range' = (0, 8)\<rparr>,
              \<lparr>names' = [\<lparr>full' = ''.a .b'', main = ''.b''\<rparr>], range' = (3, 7)\<rparr>]"
    by simp
  with h4 h5 show ?thesis
    by simp
qed

text \<open>
  The initial condition matters: with a counter left at 1 the same text gives names
  without a main identifier.
\<close>

lemma leftover_counter_changes_result:
  "map_option (\<lambda>r. map names' (fst r))
     (parse (\<lambda>offset. offset) ((new_CSSRangeParser ''css'' ''.a{}'')\<lparr>ignoreDeep := 1\<rparr>))
     = Some [[\<lparr>full' = ''.a'', main = ''''\<rparr>]]
   \<and> parsed_names ''css'' ''.a{}'' = Some [[\<lparr>full' = ''.a'', main = ''.a''\<rparr>]]"
  by code_simp

lemma shouldIgnoreDeeply_prefix:
  "shouldIgnoreDeeply declaration = (\<exists>rest. declaration = ''@keyframes'' @ rest)"
proof
  assume "shouldIgnoreDeeply declaration"
  then have "take 10 declaration = ''@keyframes''"
    by (simp add: shouldIgnoreDeeply_def)
  then have "declaration = ''@keyframes'' @ drop 10 declaration"
    by (metis append_take_drop_id)
  then show "\<exists>rest. declaration = ''@keyframes'' @ rest" ..
next
  assume "\<exists>rest. declaration = ''@keyframes'' @ rest"
  then obtain rest where "declaration = ''@keyframes'' @ rest" ..
  then show "shouldIgnoreDeeply declaration"
    by (simp add: shouldIgnoreDeeply_def)
qed

lemma parseToNames_ignored:
  "0 < ignoreDeep this \<Longrightarrow> \<forall>n\<in>set (parseToNames this selector). \<not> isSelector n"
  using names_loop_isSelector [of False]
  by (auto simp: parseToNames_def split: option.splits)

text \<open>
  Claim C10: the deep-ignore trigger is the literal prefix test for \<open>@keyframes\<close>. A
  block whose normalised selector starts with these ten characters, \<open>@keyframes-custom\<close>
  included, steps the counter, and names split while the counter is positive are not
  selectors; \<open>@-webkit-keyframes\<close> does not start with them, so the children of such a
  block are selectors and get a main identifier.
\<close>

theorem keyframes_prefix_starts_deep_ignore:
  "(shouldIgnoreDeeply declaration = (\<exists>rest. declaration = ''@keyframes'' @ rest))
   \<and> (group2 m = Some ''{'' \<longrightarrow> group1 m = Some sel \<longrightarrow> sel \<noteq> [] \<longrightarrow>
        shouldIgnoreDeeply (collapse_spaces (trimRight sel)) \<longrightarrow>
        loop_body m (this, rs) = Some (this', rs') \<longrightarrow>
        ignoreDeep this' = ignoreDeep this + 1)
   \<and> (0 < ignoreDeep this \<longrightarrow> (\<forall>n\<in>set (parseToNames this selector). \<not> isSelector n))
   \<and> shouldIgnoreDeeply ''@keyframes-custom spin''
   \<and> \<not> shouldIgnoreDeeply ''@-webkit-keyframes spin''
   \<and> map_option (\<lambda>r. map names (fst r))
        (scan (new_CSSRangeParser ''css'' ''@-webkit-keyframes spin { from { opacity: 0; } }''))
       = Some [[\<lparr>raw = ''@-webkit-keyframes spin'', full = ''@-webkit-keyframes spin'',
                  isSelector = False\<rparr>],
               [\<lparr>raw = ''from'', full = ''from'', isSelector = True\<rparr>]]
   \<and> parsed_names ''css'' ''@-webkit-keyframes spin { from { opacity: 0; } }''
       = Some [[\<lparr>full' = ''@-webkit-keyframes spin'', main = ''''\<rparr>],
               [\<lparr>full' = ''from'', main = ''from''\<rparr>]]
   \<and> parsed_names ''css'' ''@keyframes-custom spin { from { opacity: 0; } }''
       = Some [[\<lparr>full' = ''@keyframes-custom spin'', main = ''''\<rparr>],
               [\<lparr>full' = ''from'', main = ''''\<rparr>]]"
proof -
  have 1: "shouldIgnoreDeeply declaration = (\<exists>rest. declaration = ''@keyframes'' @ rest)"
    by (rule shouldIgnoreDeeply_prefix)
  have 2: "group2 m = Some ''{'' \<longrightarrow> group1 m = Some sel \<longrightarrow> sel \<noteq> [] \<longrightarrow>
        shouldIgnoreDeeply (collapse_spaces (trimRight sel)) \<longrightarrow>
        loop_body m (this, rs) = Some (this', rs') \<longrightarrow>
        ignoreDeep this' = ignoreDeep this + 1"
  proof (intro impI)
    assume a: "group2 m = Some ''{''" "group1 m = Some sel" "sel \<noteq> []"
      "loop_body m (this, rs) = Some (this', rs')"
      and k: "shouldIgnoreDeeply (collapse_spaces (trimRight sel))"
    from loop_body_opened [OF a]
    have "ignoreDeep this' = ignoreDeep (count_ignored (collapse_spaces (trimRight sel)) this)"
      by blast
    with k show "ignoreDeep this' = ignoreDeep this + 1"
      by (simp add: count_ignored_def)
  qed
  have 3: "0 < ignoreDeep this \<longrightarrow> (\<forall>n\<in>set (parseToNames this selector). \<not> isSelector n)"
    using parseToNames_ignored by blast
  have 4: "shouldIgnoreDeeply ''@keyframes-custom spin''"
    by code_simp
  have 5: "\<not> shouldIgnoreDeeply ''@-webkit-keyframes spin''"
    by code_simp
  have 6: "map_option (\<lambda>r. map names (fst r))
        (scan (new_CSSRangeParser ''css'' ''@-webkit-keyframes spin { from { opacity: 0; } }''))
       = Some [[\<lparr>raw = ''@-webkit-keyframes spin'', full = ''@-webkit-keyframes spin'',
                  isSelector = False\<rparr>],
               [\<lparr>raw = ''from'', full = ''from'', isSelector = True\<rparr>]]"
    by code_simp
  have 7: "parsed_names ''css'' ''@-webkit-keyframes spin { from { opacity: 0; } }''
       = Some [[\<lparr>full' = ''@-webkit-keyframes spin'', main = ''''\<rparr>],
               [\<lparr>full' = ''from'', main = ''from''\<rparr>]]"
    by code_simp
  have 8: "parsed_names ''css'' ''@keyframes-custom spin { from { opacity: 0; } }''
       = Some [[\<lparr>full' = ''@keyframes-custom spin'', main = ''''\<rparr>],
               [\<lparr>full' = ''from'', main = ''''\<rparr>]]"
    by code_simp
  show ?thesis
    by (intro conjI 1 2 3 4 5 6 7 8)
qed

theorem keyframes_prefix_starts_deep_ignore_witness:
  "shouldIgnoreDeeply (collapse_spaces (trimRight ''@keyframes spin ''))
   \<and> loop_body \<lparr>group1 = Some ''@keyframes spin '', group2 = Some ''{'', lastIndex = 17\<rparr>
        (new_CSSRangeParser ''css'' ''@keyframes spin { 0% { opacity: 0; } }'', [])
       = Some ((new_CSSRangeParser ''css'' ''@keyframes spin { 0% { opacity: 0; } }'')
                 \<lparr>current := Some 0, ignoreDeep := 1\<rparr>,
               [\<lparr>names = [\<lparr>raw = ''@keyframes spin'', full = ''@keyframes spin'',
                            isSelector = False\<rparr>],
                   start = 1, end' = 0, parent = None\<rparr>])
   \<and> ignoreDeep ((new_CSSRangeParser ''css'' ''@keyframes spin { 0% { opacity: 0; } }'')
                    \<lparr>current := Some 0, ignoreDeep := 1\<rparr>) = 1
   \<and> parseToNames ((new_CSSRangeParser ''css'' ''@keyframes spin { 0% { opacity: 0; } }'')
                    \<lparr>current := Some 0, ignoreDeep := 1\<rparr>) ''0%''
       = [\<lparr>raw = ''0%'', full = ''0%'', isSelector = False\<rparr>]"
proof -
  let ?p = "new_CSSRangeParser ''css'' ''@keyframes spin { 0% { opacity: 0; } }''"
  let ?m = "\<lparr>group1 = Some ''@keyframes spin '', group2 = Some ''{'', lastIndex = 17\<rparr>"
  let ?t = "?p\<lparr>current := Some 0, ignoreDeep := 1\<rparr>"
  let ?b = "\<lparr>names = [\<lparr>raw = ''@keyframes spin'', full = ''@keyframes spin'',
      isSelector = False\<rparr>], start = 1, end' = 0, parent = None\<rparr>"
  have h1: "group2 ?m = Some ''{''" by simp
  have h2: "group1 ?m = Some ''@keyframes spin ''" by simp
  have h3: "''@keyframes spin '' \<noteq> []" by simp
  have h4: "shouldIgnoreDeeply (collapse_spaces (trimRight ''@keyframes spin ''))" by code_simp
  have h5: "loop_body ?m (?p, []) = Some (?t, [?b])" by code_simp
  have z: "ignoreDeep ?p = 0" by code_simp
  have n: "parseToNames ?t ''0%'' = [\<lparr>raw = ''0%'', full = ''0%'', isSelector = False\<rparr>]"
    by code_simp
  from keyframes_prefix_starts_deep_ignore
    [where m = ?m and sel = "''@keyframes spin ''" and this = ?p and rs = "[]"
      and this' = ?t and rs' = "[?b]"]
    h1 h2 h3 h4 h5 z
  have "ignoreDeep ?t = 1"
    by simp
  with h4 h5 n show ?thesis
    by simp
qed

end
